theory Spec2Isabelle
  imports Main
begin

section \<open>The data model of \<open>pyBN/classes/BayesNet.py\<close>\<close>

text \<open>
  A vertex is named by a string; an edge is the two-element list \<open>[a, b]\<close> of the source,
  kept as an ordered pair. \<open>self.data\<close> is a dictionary from vertex names to dictionaries
  of attributes; of these the graph methods read \<open>'parents'\<close> only. A key that is absent
  from a dictionary is \<open>None\<close> of the option type, the Python value \<open>None\<close> (which the class
  documents for \<open>'parents'\<close>) is \<open>PyNone\<close>.
\<close>

type_synonym vertex = string
type_synonym edge = "vertex \<times> vertex"

datatype py_error = KeyError | TypeError

datatype attr_value = PyNone | PyList "vertex list"

record node_data =
  vals :: "attr_value option"
  parents :: "attr_value option"

record BayesNet =
  V :: "vertex list"
  E :: "edge list"
  data :: "vertex \<rightharpoonup> node_data"

text \<open>
  The source is Python 2: the order in which a \<open>dict\<close> or a \<open>set\<close> hands out its elements
  is fixed by the hash table, not by the program. Both orders are parameters: each maps the
  sequence of insertions to the sequence of iteration.
\<close>

record py_runtime =
  dict_iter :: "vertex list \<Rightarrow> vertex list"
  set_iter :: "vertex list \<Rightarrow> vertex list"

definition hash_order :: "(vertex list \<Rightarrow> vertex list) \<Rightarrow> bool" where
  "hash_order f \<longleftrightarrow> (\<forall>xs. distinct (f xs) \<and> set (f xs) = set xs)"

definition insertion_order :: py_runtime where
  "insertion_order = \<lparr>dict_iter = remdups, set_iter = remdups\<rparr>"

section \<open>The \<open>networkx\<close> graph the source builds\<close>

text \<open>
  \<open>nx.Graph()\<close> is an undirected graph: a collection of nodes and, for each node, its
  neighbours. \<open>add_edges_from\<close> adds both end points of every edge as nodes and each as
  a neighbour of the other; adding an edge twice, in either orientation, changes nothing.
\<close>

record nx_graph =
  nx_nodes :: "vertex list"
  nx_adj :: "vertex \<Rightarrow> vertex list"

definition Graph :: nx_graph where
  "Graph = \<lparr>nx_nodes = [], nx_adj = (\<lambda>_. [])\<rparr>"

definition add_key :: "vertex \<Rightarrow> vertex list \<Rightarrow> vertex list" where
  "add_key x xs = (if x \<in> set xs then xs else xs @ [x])"

definition add_edge :: "edge \<Rightarrow> nx_graph \<Rightarrow> nx_graph" where
  "add_edge e G =
     (let u = fst e; v = snd e;
          ns = add_key v (add_key u (nx_nodes G));
          a1 = (nx_adj G)(u := add_key v (nx_adj G u));
          a2 = a1(v := add_key u (a1 v))
      in \<lparr>nx_nodes = ns, nx_adj = a2\<rparr>)"

definition add_edges_from :: "edge list \<Rightarrow> nx_graph \<Rightarrow> nx_graph" where
  "add_edges_from es G = fold add_edge es G"

text \<open>\<open>G.degree()\<close>: the number of neighbours of a node, a self-loop counted twice.\<close>

definition degree :: "nx_graph \<Rightarrow> vertex \<Rightarrow> nat" where
  "degree G n = length (nx_adj G n) + (if n \<in> set (nx_adj G n) then 1 else 0)"

section \<open>\<open>nx.is_chordal\<close>\<close>

text \<open>
  Modelled from the spec: \<open>nx.is_chordal\<close>, the chordality test of the graph library, which
  the source calls and does not define. The spec (4.2) gives the algorithm: a maximum
  cardinality search, which visits the vertices one by one, each time an unvisited vertex
  with the most visited neighbours (among equals, the first in the graph's node order);
  then the check that the order in which the vertices are eliminated, the reverse of the
  visit, is a perfect elimination ordering: the later neighbours of each vertex are
  pairwise adjacent. The graph without vertices passes. The test is total, as the
  contract of the spec is: it answers for every graph.
\<close>

text \<open>Modelled from the spec: the neighbours of \<open>u\<close> among the vertices \<open>vis\<close>.\<close>

definition visited_nbrs :: "nx_graph \<Rightarrow> vertex list \<Rightarrow> vertex \<Rightarrow> vertex list" where
  "visited_nbrs G vis u = filter (\<lambda>w. w \<in> set (nx_adj G u)) vis"

text \<open>Modelled from the spec: "select the unvisited vertex with the most already-visited
  neighbors, breaking ties arbitrarily but deterministically"; here the first of them.\<close>

fun max_cardinality_node :: "(vertex \<Rightarrow> nat) \<Rightarrow> vertex \<Rightarrow> vertex list \<Rightarrow> vertex" where
  "max_cardinality_node f best [] = best"
| "max_cardinality_node f best (x # xs) =
     (if f best < f x then max_cardinality_node f x xs else max_cardinality_node f best xs)"

text \<open>Modelled from the spec: the search itself, "repeatedly select"; it returns the vertices
  in the order of the visit.\<close>

function mcs :: "nx_graph \<Rightarrow> vertex list \<Rightarrow> vertex list \<Rightarrow> vertex list" where
  "mcs G vis [] = vis"
| "mcs G vis (u # us) =
     (let v = max_cardinality_node (\<lambda>w. length (visited_nbrs G vis w)) u us
      in mcs G (vis @ [v]) (remove1 v (u # us)))"
  by pat_completeness auto
termination
proof (relation "measure (\<lambda>(G, vis, unvisited). length unvisited)")
  show "wf (measure (\<lambda>(G, vis, unvisited). length unvisited))"
    by simp
next
  fix G :: nx_graph and vis u us v
  assume v: "v = max_cardinality_node (\<lambda>w. length (visited_nbrs G vis w)) u us"
  have "max_cardinality_node f b xs \<in> set (b # xs)" for f b xs
    by (induction xs arbitrary: b) (auto split: if_splits)
  then have "v \<in> set (u # us)"
    unfolding v by blast
  then have "length (remove1 v (u # us)) < length (u # us)"
    by (simp only: length_remove1 if_True) simp
  then show "((G, vis @ [v], remove1 v (u # us)), (G, vis, u # us))
      \<in> measure (\<lambda>(G, vis, unvisited). length unvisited)"
    by simp
qed

text \<open>Modelled from the spec: "for each vertex in elimination order, its later-neighbors
  form a clique in the original graph".\<close>

fun is_clique :: "nx_graph \<Rightarrow> vertex list \<Rightarrow> bool" where
  "is_clique G [] = True"
| "is_clique G (x # xs) = ((\<forall>y \<in> set xs. y \<in> set (nx_adj G x)) \<and> is_clique G xs)"

fun perfect_elimination :: "nx_graph \<Rightarrow> vertex list \<Rightarrow> bool" where
  "perfect_elimination G [] = True"
| "perfect_elimination G (v # later) =
     (is_clique G (visited_nbrs G later v) \<and> perfect_elimination G later)"

text \<open>Modelled from the spec: \<open>nx.is_chordal(G)\<close>, the search followed by the check of the
  reversed order.\<close>

definition nx_is_chordal :: "nx_graph \<Rightarrow> bool" where
  "nx_is_chordal G = perfect_elimination G (rev (mcs G [] (nx_nodes G)))"

section \<open>The methods of \<open>BayesNet\<close>\<close>

text \<open>
  \<open>link a b es\<close> is the guarded append both methods use: \<open>[a, b]\<close> goes to the end of the
  list unless \<open>a = b\<close> or the list has \<open>[a, b]\<close> or \<open>[b, a]\<close> already.
\<close>

definition link :: "vertex \<Rightarrow> vertex \<Rightarrow> edge list \<Rightarrow> edge list" where
  "link a b es = (if a \<noteq> b \<and> (a, b) \<notin> set es \<and> (b, a) \<notin> set es then es @ [(a, b)] else es)"

definition marry_parents :: "vertex list \<Rightarrow> edge list \<Rightarrow> edge list" where
  "marry_parents ps es = fold (\<lambda>p1. fold (\<lambda>p2. link p1 p2) ps) ps es"

text \<open>
  The loop \<open>for node in self.V\<close> of \<open>get_moralized_edge_list\<close>. \<open>self.data[node]\<close> and
  \<open>[...]['parents']\<close> raise \<open>KeyError\<close> on an absent key, and \<open>for p1 in None\<close> raises
  \<open>TypeError\<close>.
\<close>

fun moralize_nodes :: "(vertex \<rightharpoonup> node_data) \<Rightarrow> vertex list \<Rightarrow> edge list \<Rightarrow> py_error + edge list" where
  "moralize_nodes d [] e_list = Inr e_list"
| "moralize_nodes d (node # rest) e_list =
     (case d node of
        None \<Rightarrow> Inl KeyError
      | Some nd \<Rightarrow>
          (case parents nd of
             None \<Rightarrow> Inl KeyError
           | Some PyNone \<Rightarrow> Inl TypeError
           | Some (PyList ps) \<Rightarrow> moralize_nodes d rest (marry_parents ps e_list)))"

definition get_moralized_edge_list :: "BayesNet \<Rightarrow> py_error + edge list" where
  "get_moralized_edge_list bn = moralize_nodes (data bn) (V bn) (E bn)"

text \<open>
  \<open>is_chordal(self, edge_list=None)\<close>: an argument that is \<open>None\<close> or the empty list is
  replaced by \<open>self.E\<close> (\<open>if not edge_list\<close>).
\<close>

definition truthy :: "'a list option \<Rightarrow> bool" where
  "truthy x = (case x of None \<Rightarrow> False | Some xs \<Rightarrow> xs \<noteq> [])"

definition is_chordal :: "BayesNet \<Rightarrow> edge list option \<Rightarrow> bool" where
  "is_chordal bn edge_list =
     (let edge_list' = (case edge_list of
                          None \<Rightarrow> E bn
                        | Some es \<Rightarrow> if es = [] then E bn else es)
      in nx_is_chordal (add_edges_from edge_list' Graph))"

text \<open>
  The body of \<open>for v in temp_V\<close> in \<open>get_chordal_nx\<close>. The state is the pair
  \<open>(chordal_E, temp_E)\<close>. \<open>adj_v\<close> is the set of the vertices that share an edge of
  \<open>temp_E\<close> with \<open>v\<close>; a pair of them is linked in both lists unless \<open>chordal_E\<close> has it;
  then the edges at \<open>v\<close> leave \<open>temp_E\<close>.
\<close>

definition adj_list :: "vertex \<Rightarrow> edge list \<Rightarrow> vertex list" where
  "adj_list v temp_E =
     concat (map (\<lambda>e. filter (\<lambda>n. (v = fst e \<or> v = snd e) \<and> n \<noteq> v) [fst e, snd e]) temp_E)"

definition fill_pair :: "vertex \<Rightarrow> vertex \<Rightarrow> edge list \<times> edge list \<Rightarrow> edge list \<times> edge list" where
  "fill_pair a1 a2 st =
     (let chordal_E = fst st; temp_E = snd st
      in if a1 \<noteq> a2 then
           if (a1, a2) \<notin> set chordal_E \<and> (a2, a1) \<notin> set chordal_E
           then (chordal_E @ [(a1, a2)], temp_E @ [(a1, a2)])
           else st
         else st)"

definition fill_in :: "vertex list \<Rightarrow> edge list \<times> edge list \<Rightarrow> edge list \<times> edge list" where
  "fill_in adj_v st = fold (\<lambda>a1. fold (\<lambda>a2. fill_pair a1 a2) adj_v) adj_v st"

definition eliminate :: "py_runtime \<Rightarrow> vertex \<Rightarrow> edge list \<times> edge list \<Rightarrow> edge list \<times> edge list" where
  "eliminate rt v st =
     (let adj_v = set_iter rt (adj_list v (snd st));
          st' = fill_in adj_v st
      in (fst st', filter (\<lambda>edge. v \<noteq> fst edge \<and> v \<noteq> snd edge) (snd st')))"

text \<open>\<open>sorted(degree_dict, key=degree_dict.get)\<close>: the keys of the degree dictionary in
  ascending degree; Python's sort is stable, as \<open>sort_key\<close> is.\<close>

definition degree_order :: "py_runtime \<Rightarrow> nx_graph \<Rightarrow> vertex list" where
  "degree_order rt temp_G = sort_key (degree temp_G) (dict_iter rt (nx_nodes temp_G))"

text \<open>
  \<open>chordal_E\<close> is the list \<open>get_chordal_nx\<close> holds when it leaves the loop; the method
  returns the graph built from it.
\<close>

definition chordal_E :: "py_runtime \<Rightarrow> BayesNet \<Rightarrow> vertex list option \<Rightarrow> edge list option
    \<Rightarrow> py_error + edge list" where
  "chordal_E rt bn v e =
     (case get_moralized_edge_list bn of
        Inl err \<Rightarrow> Inl err
      | Inr moral \<Rightarrow>
          if \<not> is_chordal bn (Some moral) then
            (if truthy v \<and> truthy e
             then Inr (fst (fold (eliminate rt) (the v) (the e, the e)))
             else Inr (fst (fold (eliminate rt)
                              (degree_order rt (add_edges_from moral Graph)) (moral, moral))))
          else Inr moral)"

definition get_chordal_nx :: "py_runtime \<Rightarrow> BayesNet \<Rightarrow> vertex list option \<Rightarrow> edge list option
    \<Rightarrow> py_error + nx_graph" where
  "get_chordal_nx rt bn v e =
     (case chordal_E rt bn v e of
        Inl err \<Rightarrow> Inl err
      | Inr es \<Rightarrow> Inr (add_edges_from es Graph))"

section \<open>Notions the statements use\<close>

text \<open>
  Two vertices are joined by an edge list when it has the pair in either orientation: this
  is the test \<open>[a, b] in es or [b, a] in es\<close> of the source, and the adjacency of the
  \<open>networkx\<close> graph built from the list. \<open>ends\<close> are the vertices that occur in a list.
\<close>

definition joined :: "edge list \<Rightarrow> vertex \<Rightarrow> vertex \<Rightarrow> bool" where
  "joined es a b \<longleftrightarrow> (a, b) \<in> set es \<or> (b, a) \<in> set es"

definition ends :: "edge list \<Rightarrow> vertex set" where
  "ends es = fst ` set es \<union> snd ` set es"

text \<open>A list is one-way when it never has both \<open>(a, b)\<close> and \<open>(b, a)\<close> for \<open>a \<noteq> b\<close>.\<close>

definition one_way :: "edge list \<Rightarrow> bool" where
  "one_way es \<longleftrightarrow> (\<forall>a b. (a, b) \<in> set es \<and> a \<noteq> b \<longrightarrow> (b, a) \<notin> set es)"

text \<open>
  \<open>grows es es'\<close>: the list \<open>es'\<close> is \<open>es\<close> followed by new edges, each of them between two
  different vertices that nothing before it in the list joined.
\<close>

definition grows :: "edge list \<Rightarrow> edge list \<Rightarrow> bool" where
  "grows es es' \<longleftrightarrow>
     (\<exists>new. es' = es @ new \<and>
        (\<forall>pre e post. new = pre @ e # post \<longrightarrow> fst e \<noteq> snd e \<and> \<not> joined (es @ pre) (fst e) (snd e)))"

text \<open>The parents of a vertex, when its entry has a list of them.\<close>

definition parent_list :: "BayesNet \<Rightarrow> vertex \<Rightarrow> vertex list option" where
  "parent_list bn node =
     (case data bn node of
        None \<Rightarrow> None
      | Some nd \<Rightarrow> (case parents nd of Some (PyList ps) \<Rightarrow> Some ps | _ \<Rightarrow> None))"

text \<open>
  Adjacency in a graph, loops left out, and the graphs \<open>add_edges_from\<close> can build: no
  node twice, the neighbours of a node are nodes, and adjacency is symmetric.
\<close>

definition nbr :: "nx_graph \<Rightarrow> vertex \<Rightarrow> vertex \<Rightarrow> bool" where
  "nbr G a b \<longleftrightarrow> a \<noteq> b \<and> b \<in> set (nx_adj G a)"

definition wf_graph :: "nx_graph \<Rightarrow> bool" where
  "wf_graph G \<longleftrightarrow> distinct (nx_nodes G) \<and>
     (\<forall>a b. b \<in> set (nx_adj G a) \<longrightarrow> a \<in> set (nx_adj G b) \<and> a \<in> set (nx_nodes G))"

text \<open>
  Chordality, for a symmetric relation \<open>A\<close>. A path is chordless when its vertices are
  distinct and exactly the consecutive ones are adjacent. A hole is a set of vertices each
  of which has two neighbours in the set that are not adjacent: a chordless cycle of four
  or more vertices is one. A ranking of the vertices is a perfect elimination ordering when
  the neighbours of a vertex that rank after it are pairwise adjacent.
\<close>

definition chordless_path :: "('a \<Rightarrow> 'a \<Rightarrow> bool) \<Rightarrow> 'a list \<Rightarrow> bool" where
  "chordless_path A p \<longleftrightarrow>
     distinct p \<and> (\<forall>i<length p. \<forall>j<length p. A (p ! i) (p ! j) \<longleftrightarrow> (j = Suc i \<or> i = Suc j))"

definition hole :: "('a \<Rightarrow> 'a \<Rightarrow> bool) \<Rightarrow> 'a set \<Rightarrow> bool" where
  "hole A S \<longleftrightarrow> S \<noteq> {} \<and> (\<forall>m\<in>S. \<exists>a\<in>S. \<exists>b\<in>S. A m a \<and> A m b \<and> a \<noteq> b \<and> \<not> A a b)"

definition peo_rank :: "('a \<Rightarrow> 'a \<Rightarrow> bool) \<Rightarrow> ('a \<Rightarrow> nat) \<Rightarrow> bool" where
  "peo_rank A r \<longleftrightarrow> (\<forall>v a b. r v < r a \<and> r v < r b \<and> A v a \<and> A v b \<and> a \<noteq> b \<longrightarrow> A a b)"

text \<open>
  With \<open>t\<close> the time at which a search visits a vertex, a path is bad when it is chordless,
  has three vertices or more, and the search visits its inner vertices after both ends.
\<close>

definition bad_path :: "('a \<Rightarrow> 'a \<Rightarrow> bool) \<Rightarrow> ('a \<Rightarrow> nat) \<Rightarrow> 'a list \<Rightarrow> bool" where
  "bad_path A t p \<longleftrightarrow>
     3 \<le> length p \<and> chordless_path A p \<and>
     (\<forall>i. 0 < i \<and> Suc i < length p \<longrightarrow> t (hd p) < t (p ! i) \<and> t (last p) < t (p ! i))"

text \<open>The position of the first occurrence of an element in a list.\<close>

fun rank_in :: "'a \<Rightarrow> 'a list \<Rightarrow> nat" where
  "rank_in x [] = 0"
| "rank_in x (y # ys) = (if x = y then 0 else Suc (rank_in x ys))"

section \<open>Example networks\<close>

definition binary :: "attr_value option" where
  "binary = Some (PyList [''0'', ''1''])"

text \<open>Two parents of one child: \<open>A \<rightarrow> C\<close>, \<open>B \<rightarrow> C\<close>.\<close>

definition common_child :: BayesNet where
  "common_child =
     \<lparr>V = [''A'', ''B'', ''C''],
      E = [(''A'', ''C''), (''B'', ''C'')],
      data = [''A'' \<mapsto> \<lparr>vals = binary, parents = Some (PyList [])\<rparr>,
              ''B'' \<mapsto> \<lparr>vals = binary, parents = Some (PyList [])\<rparr>,
              ''C'' \<mapsto> \<lparr>vals = binary, parents = Some (PyList [''A'', ''B''])\<rparr>]\<rparr>"

text \<open>
  A network of five vertices, \<open>A \<rightarrow> B \<rightarrow> D \<rightarrow> E\<close> and \<open>A \<rightarrow> C \<rightarrow> E\<close>. Its own edges form a
  cycle of five without a chord; its moral graph has the edge \<open>C - D\<close> too, and the cycle
  \<open>A - B - D - C\<close> of four without a chord.
\<close>

definition pentagon :: BayesNet where
  "pentagon =
     \<lparr>V = [''A'', ''B'', ''C'', ''D'', ''E''],
      E = [(''A'', ''B''), (''A'', ''C''), (''B'', ''D''), (''C'', ''E''), (''D'', ''E'')],
      data = [''A'' \<mapsto> \<lparr>vals = binary, parents = Some (PyList [])\<rparr>,
              ''B'' \<mapsto> \<lparr>vals = binary, parents = Some (PyList [''A''])\<rparr>,
              ''C'' \<mapsto> \<lparr>vals = binary, parents = Some (PyList [''A''])\<rparr>,
              ''D'' \<mapsto> \<lparr>vals = binary, parents = Some (PyList [''B''])\<rparr>,
              ''E'' \<mapsto> \<lparr>vals = binary, parents = Some (PyList [''C'', ''D''])\<rparr>]\<rparr>"

definition pentagon_moral :: "edge list" where
  "pentagon_moral =
     [(''A'', ''B''), (''A'', ''C''), (''B'', ''D''), (''C'', ''E''), (''D'', ''E''), (''C'', ''D'')]"

text \<open>\<open>A \<rightarrow> B\<close> with no entry \<open>'vals'\<close>, and with no entry \<open>'parents'\<close> for \<open>B\<close>.\<close>

definition no_vals :: BayesNet where
  "no_vals =
     \<lparr>V = [''A'', ''B''],
      E = [(''A'', ''B'')],
      data = [''A'' \<mapsto> \<lparr>vals = None, parents = Some (PyList [])\<rparr>,
              ''B'' \<mapsto> \<lparr>vals = None, parents = Some (PyList [''A''])\<rparr>]\<rparr>"

definition no_parents :: BayesNet where
  "no_parents =
     \<lparr>V = [''A'', ''B''],
      E = [(''A'', ''B'')],
      data = [''A'' \<mapsto> \<lparr>vals = binary, parents = Some (PyList [])\<rparr>,
              ''B'' \<mapsto> \<lparr>vals = binary, parents = None\<rparr>]\<rparr>"

text \<open>One vertex and no edge.\<close>

definition isolated :: BayesNet where
  "isolated = \<lparr>V = [''A''], E = [], data = [''A'' \<mapsto> \<lparr>vals = binary, parents = Some (PyList [])\<rparr>]\<rparr>"

section \<open>Edge lists\<close>

subsection \<open>Lists that grow by fresh edges\<close>

lemma joined_sym: "joined es a b \<Longrightarrow> joined es b a"
  by (auto simp: joined_def)

lemma joined_append: "joined (es @ new) a b \<longleftrightarrow> joined es a b \<or> joined new a b"
  by (auto simp: joined_def)

lemma grows_refl: "grows es es"
  by (simp add: grows_def)

lemma grows_snoc:
  "grows es (es @ new) \<Longrightarrow> fst e \<noteq> snd e \<Longrightarrow> \<not> joined (es @ new) (fst e) (snd e)
    \<Longrightarrow> grows es (es @ new @ [e])"
proof -
  assume g: "grows es (es @ new)" and e: "fst e \<noteq> snd e" "\<not> joined (es @ new) (fst e) (snd e)"
  have "fst x \<noteq> snd x \<and> \<not> joined (es @ pre) (fst x) (snd x)"
    if split: "new @ [e] = pre @ x # post" for pre x post
  proof (cases post rule: rev_cases)
    case Nil
    then show ?thesis using split e by simp
  next
    case (snoc post' y)
    then have "new = pre @ x # post'" using split by simp
    then show ?thesis using g unfolding grows_def by blast
  qed
  then show ?thesis unfolding grows_def by blast
qed

lemma grows_trans:
  assumes "grows es es'" "grows es' es''"
  shows "grows es es''"
proof -
  obtain n1 where n1: "es' = es @ n1" using assms(1) unfolding grows_def by blast
  obtain n2 where n2: "es'' = es' @ n2"
    and f2: "\<And>pre e post. n2 = pre @ e # post \<Longrightarrow> fst e \<noteq> snd e \<and> \<not> joined (es' @ pre) (fst e) (snd e)"
    using assms(2) unfolding grows_def by blast
  have "grows es (es @ n1 @ take k n2)" for k
  proof (induction k)
    case 0
    show ?case using assms(1) n1 by simp
  next
    case (Suc k)
    show ?case
    proof (cases "k < length n2")
      case True
      have split: "n2 = take k n2 @ n2 ! k # drop (Suc k) n2"
        using True by (simp add: id_take_nth_drop)
      have "fst (n2 ! k) \<noteq> snd (n2 ! k) \<and> \<not> joined (es' @ take k n2) (fst (n2 ! k)) (snd (n2 ! k))"
        using f2[OF split] .
      then have "grows es (es @ (n1 @ take k n2) @ [n2 ! k])"
        using Suc n1 by (intro grows_snoc[of es "n1 @ take k n2" "n2 ! k"]) simp_all
      then show ?thesis using True by (simp add: take_Suc_conv_app_nth)
    next
      case False
      then show ?thesis using Suc by simp
    qed
  qed
  from this[of "length n2"] show ?thesis using n1 n2 by simp
qed

lemma grows_prefix: "grows es es' \<Longrightarrow> \<exists>new. es' = es @ new"
  unfolding grows_def by blast

lemma grows_subset: "grows es es' \<Longrightarrow> set es \<subseteq> set es'"
  using grows_prefix[of es es'] by auto

lemma grows_joined_mono: "grows es es' \<Longrightarrow> joined es a b \<Longrightarrow> joined es' a b"
  using grows_prefix[of es es'] by (auto simp: joined_def)

lemma grows_new:
  assumes "grows es es'" "e \<in> set es'" "e \<notin> set es"
  shows "fst e \<noteq> snd e \<and> \<not> joined es (fst e) (snd e)"
proof -
  obtain new where new: "es' = es @ new"
    and f: "\<And>pre e post. new = pre @ e # post \<Longrightarrow> fst e \<noteq> snd e \<and> \<not> joined (es @ pre) (fst e) (snd e)"
    using assms(1) unfolding grows_def by blast
  have "e \<in> set new" using assms(2,3) new by simp
  then obtain pre post where "new = pre @ e # post" by (auto simp: in_set_conv_decomp)
  from f[OF this] show ?thesis by (simp add: joined_append)
qed

lemma one_way_snoc:
  assumes ow: "one_way es" and nj: "\<not> joined es (fst e) (snd e)"
  shows "one_way (es @ [e])"
  unfolding one_way_def
proof (intro allI impI)
  fix c d
  assume cd: "(c, d) \<in> set (es @ [e]) \<and> c \<noteq> d"
  have n1: "(fst e, snd e) \<notin> set es" and n2: "(snd e, fst e) \<notin> set es"
    using nj unfolding joined_def by blast+
  show "(d, c) \<notin> set (es @ [e])"
  proof (cases "(c, d) \<in> set es")
    case True
    then have "(d, c) \<notin> set es" using ow cd unfolding one_way_def by blast
    moreover have "(d, c) \<noteq> e" using True n2 by auto
    ultimately show ?thesis by simp
  next
    case False
    then have e: "e = (c, d)" using cd by simp
    then have "(d, c) \<notin> set es" using n2 by simp
    moreover have "(d, c) \<noteq> e" using e cd by simp
    ultimately show ?thesis by simp
  qed
qed

lemma grows_one_way:
  assumes "grows es es'" "one_way es"
  shows "one_way es'"
proof -
  obtain new where new: "es' = es @ new"
    and f: "\<And>pre e post. new = pre @ e # post \<Longrightarrow> fst e \<noteq> snd e \<and> \<not> joined (es @ pre) (fst e) (snd e)"
    using assms(1) unfolding grows_def by blast
  have "one_way (es @ take k new)" for k
  proof (induction k)
    case 0
    show ?case using assms(2) by simp
  next
    case (Suc k)
    show ?case
    proof (cases "k < length new")
      case True
      have split: "new = take k new @ new ! k # drop (Suc k) new"
        using True by (simp add: id_take_nth_drop)
      have "\<not> joined (es @ take k new) (fst (new ! k)) (snd (new ! k))"
        using f[OF split] by simp
      then have "one_way ((es @ take k new) @ [new ! k])"
        using Suc by (rule one_way_snoc[rotated])
      then show ?thesis using True by (simp add: take_Suc_conv_app_nth)
    next
      case False
      then show ?thesis using Suc by simp
    qed
  qed
  from this[of "length new"] show ?thesis using new by simp
qed

lemma grows_fold:
  assumes "\<And>x es. grows es (g x es)"
  shows "grows es (fold g xs es)"
proof (induction xs arbitrary: es)
  case Nil
  show ?case by (simp add: grows_refl)
next
  case (Cons x xs)
  show ?case using grows_trans[OF assms[of es x] Cons.IH[of "g x es"]] by simp
qed

subsection \<open>The guarded append\<close>

lemma grows_link: "grows es (link a b es)"
proof (cases "a \<noteq> b \<and> (a, b) \<notin> set es \<and> (b, a) \<notin> set es")
  case True
  then have "grows es (es @ [] @ [(a, b)])"
    by (intro grows_snoc[of es "[]" "(a, b)"]) (simp_all add: grows_refl joined_def)
  then show ?thesis using True by (simp add: link_def)
next
  case False
  then show ?thesis by (auto simp: link_def grows_refl)
qed

lemma joined_link: "a \<noteq> b \<Longrightarrow> joined (link a b es) a b"
  by (auto simp: link_def joined_def)

lemma set_link: "set (link a b es) \<subseteq> insert (a, b) (set es)"
  by (auto simp: link_def)

subsection \<open>Linking every pair of a list\<close>

lemma grows_row: "grows es (fold (\<lambda>p2. link p1 p2) ps es)"
  by (rule grows_fold) (rule grows_link)

lemma grows_rows: "grows es (fold (\<lambda>p1. fold (\<lambda>p2. link p1 p2) ps) qs es)"
  by (rule grows_fold) (rule grows_row)

lemma grows_marry_parents: "grows es (marry_parents ps es)"
  unfolding marry_parents_def by (rule grows_rows)

lemma set_row: "set (fold (\<lambda>p2. link p1 p2) ps es) \<subseteq> set es \<union> {p1} \<times> set ps"
proof (induction ps arbitrary: es)
  case Nil
  show ?case by simp
next
  case (Cons p ps)
  show ?case using Cons.IH[of "link p1 p es"] set_link[of p1 p es] by auto
qed

lemma set_rows: "set (fold (\<lambda>p1. fold (\<lambda>p2. link p1 p2) ps) qs es) \<subseteq> set es \<union> set qs \<times> set ps"
proof (induction qs arbitrary: es)
  case Nil
  show ?case by simp
next
  case (Cons q qs)
  show ?case using Cons.IH[of "fold (\<lambda>p2. link q p2) ps es"] set_row[of q ps es] by auto
qed

lemma set_marry_parents: "set (marry_parents ps es) \<subseteq> set es \<union> set ps \<times> set ps"
  unfolding marry_parents_def by (rule set_rows)

lemma joined_row: "p2 \<in> set ps \<Longrightarrow> p1 \<noteq> p2 \<Longrightarrow> joined (fold (\<lambda>p2. link p1 p2) ps es) p1 p2"
proof (induction ps arbitrary: es)
  case Nil
  then show ?case by simp
next
  case (Cons p ps)
  show ?case
  proof (cases "p2 = p")
    case True
    have "joined (link p1 p es) p1 p2" using joined_link[OF Cons.prems(2), of es] True by simp
    then show ?thesis using grows_joined_mono[OF grows_row] by simp
  next
    case False
    then show ?thesis using Cons by simp
  qed
qed

lemma joined_marry_parents:
  assumes "p1 \<in> set ps" "p2 \<in> set ps" "p1 \<noteq> p2"
  shows "joined (marry_parents ps es) p1 p2"
proof -
  have "p1 \<in> set qs \<Longrightarrow> joined (fold (\<lambda>p1. fold (\<lambda>p2. link p1 p2) ps) qs es) p1 p2" for qs
  proof (induction qs arbitrary: es)
    case Nil
    then show ?case by simp
  next
    case (Cons q qs)
    show ?case
    proof (cases "p1 = q")
      case True
      have "joined (fold (\<lambda>p2. link q p2) ps es) p1 p2"
        using joined_row[OF assms(2,3), of es] True by simp
      then show ?thesis using grows_joined_mono[OF grows_rows] by simp
    next
      case False
      then show ?thesis using Cons by simp
    qed
  qed
  then show ?thesis unfolding marry_parents_def using assms(1) by blast
qed

section \<open>Graphs and moralization\<close>

subsection \<open>Graphs built from edge lists\<close>

lemma set_add_key: "set (add_key x xs) = insert x (set xs)"
  by (auto simp: add_key_def)

lemma distinct_add_key: "distinct xs \<Longrightarrow> distinct (add_key x xs)"
  by (auto simp: add_key_def)

lemma nodes_add_edge: "set (nx_nodes (add_edge e G)) = insert (fst e) (insert (snd e) (set (nx_nodes G)))"
  by (auto simp: add_edge_def Let_def set_add_key)

lemma adj_add_edge:
  "b \<in> set (nx_adj (add_edge e G) a) \<longleftrightarrow>
     b \<in> set (nx_adj G a) \<or> (a = fst e \<and> b = snd e) \<or> (a = snd e \<and> b = fst e)"
  by (auto simp: add_edge_def Let_def set_add_key)

lemma distinct_nodes_add_edge: "distinct (nx_nodes G) \<Longrightarrow> distinct (nx_nodes (add_edge e G))"
  by (simp add: add_edge_def Let_def distinct_add_key)

lemma nodes_add_edges_from: "set (nx_nodes (add_edges_from es G)) = set (nx_nodes G) \<union> ends es"
  unfolding add_edges_from_def ends_def
  by (induction es arbitrary: G) (auto simp: nodes_add_edge)

lemma joined_Nil: "\<not> joined [] a b"
  by (simp add: joined_def)

lemma joined_Cons:
  "joined (e # es) a b \<longleftrightarrow> (a = fst e \<and> b = snd e) \<or> (a = snd e \<and> b = fst e) \<or> joined es a b"
  by (cases e) (auto simp: joined_def)

lemma adj_add_edges_from:
  "b \<in> set (nx_adj (add_edges_from es G) a) \<longleftrightarrow> b \<in> set (nx_adj G a) \<or> joined es a b"
proof (induction es arbitrary: G)
  case Nil
  show ?case by (simp add: add_edges_from_def joined_Nil)
next
  case (Cons e es)
  have "b \<in> set (nx_adj (add_edges_from (e # es) G) a)
      \<longleftrightarrow> b \<in> set (nx_adj (add_edge e G) a) \<or> joined es a b"
    using Cons[of "add_edge e G"] by (simp add: add_edges_from_def)
  then show ?case unfolding adj_add_edge joined_Cons by blast
qed

lemma distinct_nodes_add_edges_from:
  "distinct (nx_nodes G) \<Longrightarrow> distinct (nx_nodes (add_edges_from es G))"
  unfolding add_edges_from_def
  by (induction es arbitrary: G) (simp_all add: distinct_nodes_add_edge)

lemma nodes_graph_of: "set (nx_nodes (add_edges_from es Graph)) = ends es"
  by (simp add: nodes_add_edges_from Graph_def)

lemma adj_graph_of: "b \<in> set (nx_adj (add_edges_from es Graph) a) \<longleftrightarrow> joined es a b"
  by (simp add: adj_add_edges_from Graph_def)

lemma joined_ends: "joined es a b \<Longrightarrow> a \<in> ends es \<and> b \<in> ends es"
  by (force simp: joined_def ends_def)

lemma distinct_nodes_graph_of: "distinct (nx_nodes (add_edges_from es Graph))"
  by (rule distinct_nodes_add_edges_from) (simp add: Graph_def)

lemma wf_graph_of: "wf_graph (add_edges_from es Graph)"
  unfolding wf_graph_def
  by (auto simp: adj_graph_of nodes_graph_of joined_ends joined_sym distinct_nodes_graph_of)

lemma nbr_graph_of: "nbr (add_edges_from es Graph) a b \<longleftrightarrow> a \<noteq> b \<and> joined es a b"
  by (simp add: nbr_def adj_graph_of)

subsection \<open>Moralization\<close>

lemma moralize_nodes_Cons:
  "moralize_nodes (data (bn :: BayesNet)) (node # rest) es =
     (case parent_list bn node of
        None \<Rightarrow> Inl (if data bn node = None \<or> parents (the (data bn node)) = None then KeyError else TypeError)
      | Some ps \<Rightarrow> moralize_nodes (data bn) rest (marry_parents ps es))"
  by (auto simp: parent_list_def split: option.splits attr_value.splits)

lemma moralize_nodes_ok:
  "(\<exists>m. moralize_nodes (data (bn :: BayesNet)) ns es = Inr m) \<longleftrightarrow> (\<forall>n\<in>set ns. parent_list bn n \<noteq> None)"
proof (induction ns arbitrary: es)
  case Nil
  show ?case by simp
next
  case (Cons n ns)
  show ?case
    unfolding moralize_nodes_Cons using Cons.IH by (auto split: option.splits)
qed

lemma grows_moralize_nodes:
  "moralize_nodes (data (bn :: BayesNet)) ns es = Inr m \<Longrightarrow> grows es m"
proof (induction ns arbitrary: es)
  case Nil
  then show ?case by (simp add: grows_refl)
next
  case (Cons n ns)
  from Cons.prems obtain ps where ps: "parent_list bn n = Some ps"
    and m: "moralize_nodes (data bn) ns (marry_parents ps es) = Inr m"
    unfolding moralize_nodes_Cons by (auto split: option.splits)
  from grows_trans[OF grows_marry_parents Cons.IH[OF m]] show ?case .
qed

lemma moralize_nodes_married:
  "moralize_nodes (data (bn :: BayesNet)) ns es = Inr m \<Longrightarrow> n \<in> set ns \<Longrightarrow> parent_list bn n = Some ps
    \<Longrightarrow> p1 \<in> set ps \<Longrightarrow> p2 \<in> set ps \<Longrightarrow> p1 \<noteq> p2 \<Longrightarrow> joined m p1 p2"
proof (induction ns arbitrary: es)
  case Nil
  then show ?case by simp
next
  case (Cons k ns)
  from Cons.prems(1) obtain qs where qs: "parent_list bn k = Some qs"
    and m: "moralize_nodes (data bn) ns (marry_parents qs es) = Inr m"
    unfolding moralize_nodes_Cons by (auto split: option.splits)
  show ?case
  proof (cases "n \<in> set ns")
    case True
    then show ?thesis using Cons.IH[OF m] Cons.prems by blast
  next
    case False
    then have "qs = ps" using Cons.prems(2,3) qs by simp
    then have "joined (marry_parents qs es) p1 p2"
      using joined_marry_parents Cons.prems by blast
    then show ?thesis using grows_joined_mono[OF grows_moralize_nodes[OF m]] by blast
  qed
qed

lemma moralize_nodes_joined:
  "moralize_nodes (data (bn :: BayesNet)) ns es = Inr m \<Longrightarrow> joined m a b
    \<Longrightarrow> joined es a b \<or> (\<exists>n\<in>set ns. \<exists>ps. parent_list bn n = Some ps \<and> a \<in> set ps \<and> b \<in> set ps)"
proof (induction ns arbitrary: es)
  case Nil
  then show ?case by simp
next
  case (Cons k ns)
  from Cons.prems(1) obtain qs where qs: "parent_list bn k = Some qs"
    and m: "moralize_nodes (data bn) ns (marry_parents qs es) = Inr m"
    unfolding moralize_nodes_Cons by (auto split: option.splits)
  from Cons.IH[OF m Cons.prems(2)]
  consider "joined (marry_parents qs es) a b"
    | "\<exists>n\<in>set ns. \<exists>ps. parent_list bn n = Some ps \<and> a \<in> set ps \<and> b \<in> set ps" by blast
  then show ?case
  proof cases
    case 1
    then have "joined es a b \<or> (a \<in> set qs \<and> b \<in> set qs)"
      using set_marry_parents[of qs es] unfolding joined_def by auto
    then show ?thesis using qs by auto
  next
    case 2
    then show ?thesis by auto
  qed
qed

section \<open>The elimination loop\<close>

subsection \<open>Elimination only appends\<close>

lemma fst_fill_pair: "fst (fill_pair a1 a2 st) = link a1 a2 (fst st)"
  by (simp add: fill_pair_def link_def Let_def)

lemma fst_fill_row: "fst (fold (\<lambda>a2. fill_pair a1 a2) bs st) = fold (\<lambda>a2. link a1 a2) bs (fst st)"
  by (induction bs arbitrary: st) (simp_all add: fst_fill_pair)

lemma fst_fill_rows:
  "fst (fold (\<lambda>a1. fold (\<lambda>a2. fill_pair a1 a2) bs) as st)
     = fold (\<lambda>a1. fold (\<lambda>a2. link a1 a2) bs) as (fst st)"
  by (induction as arbitrary: st) (simp_all add: fst_fill_row)

lemma fst_fill_in: "fst (fill_in adj_v st) = marry_parents adj_v (fst st)"
  unfolding fill_in_def marry_parents_def by (rule fst_fill_rows)

lemma fst_eliminate:
  "fst (eliminate rt v st) = marry_parents (set_iter rt (adj_list v (snd st))) (fst st)"
  by (simp add: eliminate_def Let_def fst_fill_in)

lemma grows_eliminate: "grows (fst st) (fst (eliminate rt v st))"
  unfolding fst_eliminate by (rule grows_marry_parents)

lemma grows_elimination: "grows (fst st) (fst (fold (eliminate rt) vs st))"
proof (induction vs arbitrary: st)
  case Nil
  show ?case by (simp add: grows_refl)
next
  case (Cons v vs)
  show ?case using grows_trans[OF grows_eliminate Cons.IH[of "eliminate rt v st"]] by simp
qed

subsection \<open>The elimination order without overrides\<close>

lemma degree_order_props:
  assumes "hash_order (dict_iter rt)"
  shows "set (degree_order rt G) = set (nx_nodes G)"
    and "distinct (degree_order rt G)"
    and "sorted (map (degree G) (degree_order rt G))"
  using assms by (simp_all add: degree_order_def hash_order_def)

lemma hash_order_remdups: "hash_order remdups"
  by (simp add: hash_order_def)

subsection \<open>Failing vertices\<close>

lemma moralize_nodes_append:
  "moralize_nodes d (xs @ ys) es =
     (case moralize_nodes d xs es of Inl err \<Rightarrow> Inl err | Inr m \<Rightarrow> moralize_nodes d ys m)"
  by (induction xs arbitrary: es) (auto split: option.splits attr_value.splits)

lemma chordal_E_ok:
  assumes "get_moralized_edge_list bn = Inr moral"
  shows "\<exists>es. chordal_E rt bn v e = Inr es"
  using assms by (simp add: chordal_E_def)

lemma chordal_E_fails:
  assumes "get_moralized_edge_list bn = Inl err"
  shows "chordal_E rt bn v e = Inl err" "get_chordal_nx rt bn v e = Inl err"
  using assms by (simp_all add: chordal_E_def get_chordal_nx_def)

section \<open>Chordality\<close>

subsection \<open>Holes and perfect elimination orderings\<close>

text \<open>
  Where the vertices can be ranked into a perfect elimination ordering there is no hole:
  the vertex of a hole that ranks first would have two later neighbours that are not
  adjacent.
\<close>

lemma peo_rank_no_hole:
  assumes peo: "peo_rank A r" and sym: "\<And>a b. A a b \<Longrightarrow> A b a"
    and inj: "inj_on r S"
  shows "\<not> hole A S"
proof
  assume h: "hole A S"
  then obtain k where "k \<in> S" unfolding hole_def by blast
  from ex_has_least_nat[of "\<lambda>x. x \<in> S" k r] this
  obtain m where m: "m \<in> S" and least: "\<And>y. y \<in> S \<Longrightarrow> r m \<le> r y" by blast
  from h m obtain a b where ab: "a \<in> S" "b \<in> S" "A m a" "A m b" "a \<noteq> b" "\<not> A a b"
    unfolding hole_def by blast
  have "a \<noteq> m" using ab by blast
  moreover have "b \<noteq> m" using ab sym by blast
  ultimately have "r m \<noteq> r a" "r m \<noteq> r b"
    using inj m ab(1,2) by (auto dest: inj_onD)
  with least[OF ab(1)] least[OF ab(2)] have "r m < r a" "r m < r b" by simp_all
  with peo ab show False unfolding peo_rank_def by blast
qed

subsection \<open>Searches that leave no bad path\<close>

text \<open>
  The argument of Tarjan and Yannakakis for the maximum cardinality search. The search has
  the property \<open>P\<close> below: when \<open>v\<close> is visited before \<open>u\<close>, and an earlier vertex is adjacent
  to \<open>u\<close> and not to \<open>v\<close>, then another earlier vertex is adjacent to \<open>v\<close> and not to \<open>u\<close>. In
  a graph without holes such a search leaves no bad path: from a bad path the property
  gives either a hole or a bad path whose ends were visited earlier. So the earlier
  neighbours of every vertex are pairwise adjacent.
\<close>

lemma chordless_path_rev:
  assumes "chordless_path A p" shows "chordless_path A (rev p)"
proof -
  have d: "distinct (rev p)" using assms unfolding chordless_path_def by simp
  have "A (rev p ! i) (rev p ! j) \<longleftrightarrow> (j = Suc i \<or> i = Suc j)"
    if "i < length p" "j < length p" for i j
  proof -
    have "A (p ! (length p - Suc i)) (p ! (length p - Suc j))
        \<longleftrightarrow> (length p - Suc j = Suc (length p - Suc i) \<or> length p - Suc i = Suc (length p - Suc j))"
      using assms that unfolding chordless_path_def by simp
    then show ?thesis using that by (simp add: rev_nth) arith
  qed
  then show ?thesis using d unfolding chordless_path_def by simp
qed

lemma bad_path_rev:
  assumes "bad_path A t p" shows "bad_path A t (rev p)"
proof -
  have len: "3 \<le> length p" and cp: "chordless_path A p"
    and inner: "\<And>i. 0 < i \<Longrightarrow> Suc i < length p \<Longrightarrow> t (hd p) < t (p ! i) \<and> t (last p) < t (p ! i)"
    using assms unfolding bad_path_def by auto
  have ne: "p \<noteq> []" using len by auto
  have "t (hd (rev p)) < t (rev p ! i) \<and> t (last (rev p)) < t (rev p ! i)"
    if "0 < i" "Suc i < length p" for i
  proof -
    have "0 < length p - Suc i" "Suc (length p - Suc i) < length p" using that by arith+
    from inner[OF this] show ?thesis
      using that ne by (simp add: rev_nth hd_rev last_rev)
  qed
  then show ?thesis
    using len chordless_path_rev[OF cp] unfolding bad_path_def by simp
qed

lemma cycle_hole:
  assumes cp: "chordless_path A q" and sym: "\<And>a b. A a b \<Longrightarrow> A b a"
    and x: "x \<notin> set q" and m: "m < length q" "2 \<le> m"
    and x0: "A x (q ! 0)" and xm: "A x (q ! m)"
    and xi: "\<And>i. 0 < i \<Longrightarrow> i < m \<Longrightarrow> \<not> A x (q ! i)"
  shows "hole A (insert x ((!) q ` {..m}))"
proof -
  let ?S = "insert x ((!) q ` {..m})"
  have dq: "distinct q"
    and adj: "\<And>i j. i < length q \<Longrightarrow> j < length q \<Longrightarrow> A (q ! i) (q ! j) \<longleftrightarrow> (j = Suc i \<or> i = Suc j)"
    using cp unfolding chordless_path_def by auto
  have ne: "q \<noteq> []" using m by auto
  have mem: "q ! i \<in> ?S" if "i \<le> m" for i using that by auto
  have xq: "x \<noteq> q ! i" if "i < length q" for i using x that by (metis nth_mem)
  have "\<exists>a\<in>?S. \<exists>b\<in>?S. A v a \<and> A v b \<and> a \<noteq> b \<and> \<not> A a b" if v: "v \<in> ?S" for v
  proof (cases "v = x")
    case True
    have pos: "0 < length q" "0 \<noteq> m" using m by arith+
    then have "q ! 0 \<noteq> q ! m" using nth_eq_iff_index_eq[OF dq, of 0 m] m(1) by simp
    moreover have "\<not> A (q ! 0) (q ! m)" using adj[of 0 m] m ne by simp
    ultimately show ?thesis using True x0 xm mem[of 0] mem[of m] by blast
  next
    case False
    then obtain i where i: "i \<le> m" "v = q ! i" using v by auto
    consider "i = 0" | "i = m" | "0 < i" "i < m" using i(1) by arith
    then show ?thesis
    proof cases
      case 1
      have "A (q ! 0) x" using sym x0 by blast
      moreover have "A (q ! 0) (q ! 1)" using adj[of 0 1] m ne by simp
      moreover have "x \<noteq> q ! 1" using xq[of 1] m by simp
      moreover have "\<not> A x (q ! 1)" using xi[of 1] m by simp
      moreover have "x \<in> ?S" by simp
      moreover have "q ! 1 \<in> ?S" by (rule mem) (use m in arith)
      ultimately show ?thesis unfolding i(2) 1 by blast
    next
      case 2
      have "A (q ! m) x" using sym xm by blast
      moreover have "A (q ! m) (q ! (m - 1))" using adj[of m "m - 1"] m ne by simp
      moreover have "x \<noteq> q ! (m - 1)" using xq[of "m - 1"] m by simp
      moreover have "\<not> A x (q ! (m - 1))" using xi[of "m - 1"] m by simp
      moreover have "x \<in> ?S" by simp
      moreover have "q ! (m - 1) \<in> ?S" by (rule mem) simp
      ultimately show ?thesis unfolding i(2) 2 by blast
    next
      case 3
      have "A (q ! i) (q ! (i - 1))" using adj[of i "i - 1"] 3 m ne by simp
      moreover have "A (q ! i) (q ! Suc i)" using adj[of i "Suc i"] 3 m ne by simp
      moreover have "q ! (i - 1) \<noteq> q ! Suc i" using dq 3 m by (simp add: nth_eq_iff_index_eq)
      moreover have "\<not> A (q ! (i - 1)) (q ! Suc i)" using adj[of "i - 1" "Suc i"] 3 m ne by simp
      moreover have "q ! (i - 1) \<in> ?S" by (rule mem) (use 3 in arith)
      moreover have "q ! Suc i \<in> ?S" by (rule mem) (use 3 in arith)
      ultimately show ?thesis unfolding i(2) by blast
    qed
  qed
  then show ?thesis unfolding hole_def by blast
qed

lemma path_extend:
  assumes cp: "chordless_path A q" and sym: "\<And>a b. A a b \<Longrightarrow> A b a" and irr: "\<not> A x x"
    and x: "x \<notin> set q" and j: "j < length q"
    and xj: "A x (q ! j)" and xi: "\<And>i. i < j \<Longrightarrow> \<not> A x (q ! i)"
  shows "chordless_path A (take (Suc j) q @ [x])"
proof -
  let ?q = "take (Suc j) q @ [x]"
  have dq: "distinct q"
    and adj: "\<And>i j. i < length q \<Longrightarrow> j < length q \<Longrightarrow> A (q ! i) (q ! j) \<longleftrightarrow> (j = Suc i \<or> i = Suc j)"
    using cp unfolding chordless_path_def by auto
  have len: "length ?q = Suc (Suc j)" using j by simp
  have nth_old: "?q ! i = q ! i" if "i \<le> j" for i using that j by (simp add: nth_append)
  have nth_new: "?q ! Suc j = x" using j by (simp add: nth_append)
  have d: "distinct ?q" using dq x by (auto dest: in_set_takeD)
  have ax: "A x (q ! i) \<longleftrightarrow> i = j" if "i \<le> j" for i using that xj xi[of i] by (cases "i = j") auto
  have ax': "A (q ! i) x \<longleftrightarrow> i = j" if "i \<le> j" for i using ax[OF that] sym by blast
  have "A (?q ! i) (?q ! i') \<longleftrightarrow> (i' = Suc i \<or> i = Suc i')"
    if bounds: "i < Suc (Suc j)" "i' < Suc (Suc j)" for i i'
  proof -
    consider "i \<le> j" "i' \<le> j" | "i \<le> j" "i' = Suc j" | "i = Suc j" "i' \<le> j" | "i = Suc j" "i' = Suc j"
      using bounds by arith
    then show ?thesis
    proof cases
      case 1 then show ?thesis using adj[of i i'] j by (simp add: nth_old)
    next
      case 2 then show ?thesis using ax'[of i] by (auto simp add: nth_old nth_new)
    next
      case 3 then show ?thesis using ax[of i'] by (auto simp add: nth_old nth_new)
    next
      case 4 then show ?thesis using irr by (simp add: nth_new)
    qed
  qed
  then show ?thesis using d len unfolding chordless_path_def by simp
qed

lemma no_bad_path:
  fixes A :: "'a \<Rightarrow> 'a \<Rightarrow> bool" and t :: "'a \<Rightarrow> nat"
  assumes sym: "\<And>a b. A a b \<Longrightarrow> A b a" and irr: "\<And>a. \<not> A a a"
    and fld: "\<And>a b. A a b \<Longrightarrow> a \<in> U"
    and inj: "inj_on t U"
    and P: "\<And>u v w. t w < t v \<Longrightarrow> t v < t u \<Longrightarrow> A w u \<Longrightarrow> \<not> A w v \<Longrightarrow> v \<in> U
              \<Longrightarrow> \<exists>x. t x < t v \<and> A x v \<and> \<not> A x u"
    and holes: "\<And>S. \<not> hole A S"
  shows "\<not> bad_path A t p"
proof (induction "max (t (hd p)) (t (last p))" arbitrary: p rule: less_induct)
  case less
  have oriented: False
    if bq: "bad_path A t q" and lt: "t (hd q) < t (last q)"
      and same: "max (t (hd q)) (t (last q)) = max (t (hd p)) (t (last p))" for q
  proof -
    define k where "k = length q - 1"
    have len: "3 \<le> length q" and cp: "chordless_path A q"
      and inner0: "\<And>i. 0 < i \<Longrightarrow> Suc i < length q \<Longrightarrow> t (hd q) < t (q ! i) \<and> t (last q) < t (q ! i)"
      using bq unfolding bad_path_def by auto
    have dq: "distinct q"
      and adj: "\<And>i j. i < length q \<Longrightarrow> j < length q \<Longrightarrow> A (q ! i) (q ! j) \<longleftrightarrow> (j = Suc i \<or> i = Suc j)"
      using cp unfolding chordless_path_def by auto
    have k: "2 \<le> k" "k < length q" "length q = Suc k" using len by (auto simp: k_def)
    have ne: "q \<noteq> []" using len by auto
    have hd: "hd q = q ! 0" using ne by (simp add: hd_conv_nth)
    have lst: "last q = q ! k" using ne by (simp add: last_conv_nth k_def)
    have inner: "t (q ! 0) < t (q ! i) \<and> t (q ! k) < t (q ! i)" if "0 < i" "i < k" for i
      using inner0[of i] that k by (simp add: hd lst)
    have lt': "t (q ! 0) < t (q ! k)" using lt by (simp add: hd lst)
    have "t (q ! k) < t (q ! 1)" using inner[of 1] k by simp
    moreover have "A (q ! 0) (q ! 1)" using adj[of 0 1] k by simp
    moreover have "\<not> A (q ! 0) (q ! k)" using adj[of 0 k] k by simp
    moreover have "q ! k \<in> U"
    proof -
      have "A (q ! k) (q ! (k - 1))" using adj[of k "k - 1"] k by simp
      then show ?thesis by (rule fld)
    qed
    ultimately obtain x where x: "t x < t (q ! k)" "A x (q ! k)" "\<not> A x (q ! 1)"
      using P[OF lt'] by blast
    have xq: "x \<notin> set q"
    proof
      assume "x \<in> set q"
      then obtain i where i: "i < length q" "x = q ! i" by (auto simp: in_set_conv_nth)
      consider "i = 0" | "i = k" | "0 < i" "i < k" using i(1) k by arith
      then show False
      proof cases
        case 1 then show ?thesis using x(3) i \<open>A (q ! 0) (q ! 1)\<close> by simp
      next
        case 2 then show ?thesis using x(2) i irr by simp
      next
        case 3 then show ?thesis using inner[OF 3] x(1) i by simp
      qed
    qed
    define j where "j = (LEAST i. A x (q ! i))"
    have xj: "A x (q ! j)" unfolding j_def using x(2) by (rule LeastI)
    have jk: "j \<le> k" unfolding j_def using x(2) by (rule Least_le)
    have xi: "\<not> A x (q ! i)" if "i < j" for i using that unfolding j_def by (rule not_less_Least)
    have j1: "j \<noteq> 1" using xj x(3) by auto
    show False
    proof (cases "j = 0")
      case True
      define m where "m = (LEAST i. 2 \<le> i \<and> A x (q ! i))"
      have ex: "2 \<le> k \<and> A x (q ! k)" using k x(2) by simp
      have m2: "2 \<le> m \<and> A x (q ! m)" unfolding m_def using ex by (rule LeastI)
      have mk: "m \<le> k" unfolding m_def using ex by (rule Least_le)
      have xm: "\<not> A x (q ! i)" if "0 < i" "i < m" for i
      proof (cases "i = 1")
        case True then show ?thesis using x(3) by simp
      next
        case False
        then have "2 \<le> i" using that by arith
        moreover have "\<not> (2 \<le> i \<and> A x (q ! i))" using that(2) unfolding m_def by (rule not_less_Least)
        ultimately show ?thesis by simp
      qed
      have "hole A (insert x ((!) q ` {..m}))"
        using cp sym xq _ _ _ _ xm
      proof (rule cycle_hole)
        show "m < length q" using mk k by simp
        show "2 \<le> m" using m2 by simp
        show "A x (q ! 0)" using xj True by simp
        show "A x (q ! m)" using m2 by simp
      qed
      then show False using holes by blast
    next
      case False
      then have j2: "2 \<le> j" using j1 by arith
      let ?q = "take (Suc j) q @ [x]"
      have jl: "j < length q" using jk k by simp
      have cq: "chordless_path A ?q"
        using cp sym irr xq jl xj xi by (rule path_extend)
      have hdq: "hd ?q = q ! 0" using ne jl by (simp add: hd_append hd_conv_nth)
      have inner': "t (hd ?q) < t (?q ! i) \<and> t (last ?q) < t (?q ! i)"
        if "0 < i" "Suc i < length ?q" for i
      proof -
        have ij: "i \<le> j" using that jl by simp
        then have nth: "?q ! i = q ! i" using jl by (simp add: nth_append)
        show ?thesis
        proof (cases "i = k")
          case True show ?thesis unfolding nth hdq using True lt' x(1) by simp
        next
          case False
          then have "i < k" using ij jk by simp
          from inner[OF that(1) this] x(1) show ?thesis unfolding nth hdq by simp
        qed
      qed
      have "bad_path A t ?q"
        unfolding bad_path_def using cq inner' jl j2 by simp
      moreover have "max (t (hd ?q)) (t (last ?q)) < max (t (hd p)) (t (last p))"
        using same[symmetric] lt' x(1) by (simp add: hdq hd lst)
      ultimately show False using less.hyps by blast
    qed
  qed
  show ?case
  proof
    assume bp: "bad_path A t p"
    have len: "3 \<le> length p" and cp: "chordless_path A p"
      using bp unfolding bad_path_def by auto
    have dq: "distinct p"
      and adj: "\<And>i j. i < length p \<Longrightarrow> j < length p \<Longrightarrow> A (p ! i) (p ! j) \<longleftrightarrow> (j = Suc i \<or> i = Suc j)"
      using cp unfolding chordless_path_def by auto
    have ne: "p \<noteq> []" using len by auto
    have "hd p \<noteq> last p"
      using dq len ne by (simp add: hd_conv_nth last_conv_nth nth_eq_iff_index_eq)
    moreover have "hd p \<in> U" using adj[of 0 1] len fld ne by (auto simp: hd_conv_nth)
    moreover have "last p \<in> U"
      using adj[of "length p - 1" "length p - 2"] len fld ne by (auto simp: last_conv_nth)
    ultimately have "t (hd p) \<noteq> t (last p)" using inj by (auto dest: inj_onD)
    then consider "t (hd p) < t (last p)" | "t (last p) < t (hd p)" by arith
    then show False
    proof cases
      case 1 then show ?thesis using oriented[OF bp] by simp
    next
      case 2
      have "bad_path A t (rev p)" using bp by (rule bad_path_rev)
      moreover have "t (hd (rev p)) < t (last (rev p))" using 2 ne by (simp add: hd_rev last_rev)
      moreover have "max (t (hd (rev p))) (t (last (rev p))) = max (t (hd p)) (t (last p))"
        using ne by (simp add: hd_rev last_rev max.commute)
      ultimately show ?thesis by (rule oriented)
    qed
  qed
qed

lemma mcs_order_peo:
  fixes A :: "'a \<Rightarrow> 'a \<Rightarrow> bool" and t :: "'a \<Rightarrow> nat"
  assumes sym: "\<And>a b. A a b \<Longrightarrow> A b a" and irr: "\<And>a. \<not> A a a"
    and fld: "\<And>a b. A a b \<Longrightarrow> a \<in> U"
    and inj: "inj_on t U"
    and P: "\<And>u v w. t w < t v \<Longrightarrow> t v < t u \<Longrightarrow> A w u \<Longrightarrow> \<not> A w v \<Longrightarrow> v \<in> U
              \<Longrightarrow> \<exists>x. t x < t v \<and> A x v \<and> \<not> A x u"
    and holes: "\<And>S. \<not> hole A S"
    and a: "t a < t v" "A v a" and b: "t b < t v" "A v b" and ab: "a \<noteq> b"
  shows "A a b"
proof (rule ccontr)
  assume n: "\<not> A a b"
  have av: "A a v" and bv: "A b v" using a b sym by blast+
  have ne: "a \<noteq> v" "b \<noteq> v" using a b by auto
  have "A ([a, v, b] ! i) ([a, v, b] ! j) \<longleftrightarrow> (j = Suc i \<or> i = Suc j)" if "i < 3" "j < 3" for i j
  proof -
    have "i = 0 \<or> i = 1 \<or> i = 2" "j = 0 \<or> j = 1 \<or> j = 2" using that by arith+
    then show ?thesis using n av bv a(2) b(2) irr sym by auto
  qed
  then have cp: "chordless_path A [a, v, b]"
    unfolding chordless_path_def using ne ab by (simp add: numeral_3_eq_3)
  have inner: "\<forall>i. 0 < i \<and> Suc i < length [a, v, b]
      \<longrightarrow> t (hd [a, v, b]) < t ([a, v, b] ! i) \<and> t (last [a, v, b]) < t ([a, v, b] ! i)"
  proof (intro allI impI)
    fix i :: nat
    assume "0 < i \<and> Suc i < length [a, v, b]"
    then have "i = 1" by simp
    then show "t (hd [a, v, b]) < t ([a, v, b] ! i) \<and> t (last [a, v, b]) < t ([a, v, b] ! i)"
      using a(1) b(1) by simp
  qed
  have "3 \<le> length [a, v, b]" by simp
  then have "bad_path A t [a, v, b]" unfolding bad_path_def using cp inner by blast
  moreover have "\<not> bad_path A t [a, v, b]"
  proof (rule no_bad_path[where A = A and U = U and t = t])
    show "\<And>a b. A a b \<Longrightarrow> A b a" by (rule sym)
    show "\<And>a. \<not> A a a" by (rule irr)
    show "\<And>a b. A a b \<Longrightarrow> a \<in> U" by (rule fld)
    show "inj_on t U" by (rule inj)
    show "\<And>u v w. t w < t v \<Longrightarrow> t v < t u \<Longrightarrow> A w u \<Longrightarrow> \<not> A w v \<Longrightarrow> v \<in> U
              \<Longrightarrow> \<exists>x. t x < t v \<and> A x v \<and> \<not> A x u" by (rule P)
    show "\<And>S. \<not> hole A S" by (rule holes)
  qed
  ultimately show False by blast
qed

section \<open>The chordality test\<close>

subsection \<open>Positions in a list\<close>

lemma rank_in_less: "x \<in> set xs \<Longrightarrow> rank_in x xs < length xs"
  by (induction xs) auto

lemma rank_in_notin: "x \<notin> set xs \<Longrightarrow> rank_in x xs = length xs"
  by (induction xs) auto

lemma nth_rank_in: "x \<in> set xs \<Longrightarrow> xs ! rank_in x xs = x"
  by (induction xs) auto

lemma rank_in_append: "x \<in> set xs \<Longrightarrow> rank_in x (xs @ ys) = rank_in x xs"
  by (induction xs) auto

lemma rank_in_append_notin: "x \<notin> set xs \<Longrightarrow> rank_in x (xs @ ys) = length xs + rank_in x ys"
  by (induction xs) auto

lemma rank_in_mid: "x \<notin> set pre \<Longrightarrow> rank_in x (pre @ x # post) = length pre"
  by (simp add: rank_in_append_notin)

lemma rank_in_before:
  assumes "rank_in a (pre @ rest) < length pre"
  shows "a \<in> set pre"
proof (rule ccontr)
  assume "a \<notin> set pre"
  then have "rank_in a (pre @ rest) = length pre + rank_in a rest"
    by (rule rank_in_append_notin)
  then show False using assms by simp
qed

lemma rank_in_after:
  assumes "length pre < rank_in a (pre @ x # post)" and "a \<in> set (pre @ x # post)"
  shows "a \<in> set post"
proof -
  have 1: "a \<notin> set pre"
  proof
    assume "a \<in> set pre"
    then have "rank_in a (pre @ x # post) < length pre"
      using rank_in_less[of a pre] by (simp add: rank_in_append)
    then show False using assms(1) by simp
  qed
  have "a \<noteq> x"
  proof
    assume "a = x"
    then have "rank_in a (pre @ x # post) = length pre" using 1 by (simp add: rank_in_mid)
    then show False using assms(1) by simp
  qed
  then show ?thesis using 1 assms(2) by simp
qed

lemma inj_on_rank_in: "inj_on (\<lambda>x. rank_in x xs) (set xs)"
proof (rule inj_onI)
  fix x y
  assume "x \<in> set xs" "y \<in> set xs" "rank_in x xs = rank_in y xs"
  then show "x = y" by (metis nth_rank_in)
qed

subsection \<open>The maximum cardinality search\<close>

lemma max_cardinality_node_in: "max_cardinality_node f b xs \<in> set (b # xs)"
  by (induction xs arbitrary: b) auto

lemma max_cardinality_node_max: "y \<in> set (b # xs) \<Longrightarrow> f y \<le> f (max_cardinality_node f b xs)"
proof (induction xs arbitrary: b y)
  case Nil
  then show ?case by simp
next
  case (Cons x xs)
  show ?case
  proof (cases "f b < f x")
    case True
    have "f x \<le> f (max_cardinality_node f x xs)" using Cons.IH[of x x] by simp
    moreover have "y \<in> set xs \<Longrightarrow> f y \<le> f (max_cardinality_node f x xs)"
      using Cons.IH[of y x] by simp
    ultimately show ?thesis using True Cons.prems by auto
  next
    case False
    have "f b \<le> f (max_cardinality_node f b xs)" using Cons.IH[of b b] by simp
    moreover have "y \<in> set xs \<Longrightarrow> f y \<le> f (max_cardinality_node f b xs)"
      using Cons.IH[of y b] by simp
    ultimately show ?thesis using False Cons.prems by auto
  qed
qed

lemma mcs_structure:
  "distinct un \<Longrightarrow>
   \<exists>rest. mcs G vis un = vis @ rest \<and> set rest = set un \<and> distinct rest \<and>
     (\<forall>pre v post. rest = pre @ v # post \<longrightarrow>
        (\<forall>u\<in>set post. length (visited_nbrs G (vis @ pre) u) \<le> length (visited_nbrs G (vis @ pre) v)))"
proof (induction G vis un rule: mcs.induct)
  case (1 G vis)
  show ?case by simp
next
  case (2 G vis u us)
  define f where "f = (\<lambda>w. length (visited_nbrs G vis w))"
  define v where "v = max_cardinality_node f u us"
  have vin: "v \<in> set (u # us)" unfolding v_def by (rule max_cardinality_node_in)
  have vmax: "\<And>y. y \<in> set (u # us) \<Longrightarrow> f y \<le> f v"
    unfolding v_def by (rule max_cardinality_node_max)
  have d: "distinct (remove1 v (u # us))" using "2.prems" by (rule distinct_remove1)
  have v': "v = max_cardinality_node (\<lambda>w. length (visited_nbrs G vis w)) u us"
    unfolding v_def f_def ..
  from "2.IH"[OF v' d] obtain rest where
    r: "mcs G (vis @ [v]) (remove1 v (u # us)) = (vis @ [v]) @ rest"
    and s: "set rest = set (remove1 v (u # us))" and dr: "distinct rest"
    and m: "\<And>pre x post. rest = pre @ x # post \<Longrightarrow>
        (\<forall>y\<in>set post. length (visited_nbrs G ((vis @ [v]) @ pre) y)
            \<le> length (visited_nbrs G ((vis @ [v]) @ pre) x))"
    by blast
  have s': "set rest = set (u # us) - {v}" using s "2.prems" by (simp only: set_remove1_eq)
  have eq: "mcs G vis (u # us) = vis @ (v # rest)"
    using r by (simp add: v_def f_def Let_def)
  have "\<forall>y\<in>set post. length (visited_nbrs G (vis @ pre) y) \<le> length (visited_nbrs G (vis @ pre) x)"
    if split: "v # rest = pre @ x # post" for pre x post
  proof (cases pre)
    case Nil
    then have "x = v" "post = rest" using split by simp_all
    then show ?thesis using vmax s' Nil by (auto simp: f_def)
  next
    case (Cons p pre')
    then have "p = v" "rest = pre' @ x # post" using split by simp_all
    then show ?thesis using m[of pre' x post] Cons by simp
  qed
  moreover have "set (v # rest) = set (u # us)" using s' vin by auto
  moreover have "distinct (v # rest)" using dr s' by simp
  ultimately show ?case using eq by blast
qed

lemma filter_length_less:
  assumes "\<And>x. x \<in> set xs \<Longrightarrow> P x \<Longrightarrow> Q x" and "w \<in> set xs" and "Q w" and "\<not> P w"
  shows "length (filter P xs) < length (filter Q xs)"
  using assms
proof (induction xs)
  case Nil
  then show ?case by simp
next
  case (Cons x xs)
  have le: "length (filter P xs) \<le> length (filter Q xs)"
  proof -
    have "filter P xs = filter P (filter Q xs)"
      using Cons.prems(1) by (auto simp: filter_filter intro!: filter_cong)
    then show ?thesis by (metis length_filter_le)
  qed
  show ?case
  proof (cases "w = x")
    case True
    then show ?thesis using le Cons.prems by simp
  next
    case False
    then have "length (filter P xs) < length (filter Q xs)"
      using Cons.IH Cons.prems by auto
    then show ?thesis using Cons.prems(1)[of x] by auto
  qed
qed

subsection \<open>The check of the elimination order\<close>

lemma is_clique_pairwise:
  "distinct xs \<Longrightarrow> (\<And>a b. a \<in> set xs \<Longrightarrow> b \<in> set xs \<Longrightarrow> a \<noteq> b \<Longrightarrow> b \<in> set (nx_adj G a))
    \<Longrightarrow> is_clique G xs"
  by (induction xs) auto

lemma perfect_elimination_rev:
  assumes "distinct vs"
    and "\<And>pre v post a b. vs = pre @ v # post \<Longrightarrow> a \<in> set pre \<Longrightarrow> b \<in> set pre \<Longrightarrow> a \<noteq> b
          \<Longrightarrow> a \<in> set (nx_adj G v) \<Longrightarrow> b \<in> set (nx_adj G v) \<Longrightarrow> b \<in> set (nx_adj G a)"
  shows "perfect_elimination G (rev vs)"
  using assms
proof (induction vs rule: rev_induct)
  case Nil
  show ?case by simp
next
  case (snoc v vs)
  have d: "distinct vs" using snoc.prems(1) by simp
  have "perfect_elimination G (rev vs)"
  proof (rule snoc.IH[OF d])
    fix pre x post a b
    assume "vs = pre @ x # post" "a \<in> set pre" "b \<in> set pre" "a \<noteq> b"
      "a \<in> set (nx_adj G x)" "b \<in> set (nx_adj G x)"
    then show "b \<in> set (nx_adj G a)"
      using snoc.prems(2)[of pre x "post @ [v]" a b] by simp
  qed
  moreover have "is_clique G (visited_nbrs G (rev vs) v)"
  proof (rule is_clique_pairwise)
    show "distinct (visited_nbrs G (rev vs) v)" using d by (simp add: visited_nbrs_def)
    fix a b
    assume "a \<in> set (visited_nbrs G (rev vs) v)" "b \<in> set (visited_nbrs G (rev vs) v)" "a \<noteq> b"
    then show "b \<in> set (nx_adj G a)"
      using snoc.prems(2)[of vs v "[]" a b] by (simp add: visited_nbrs_def)
  qed
  ultimately show ?case by simp
qed

subsection \<open>A graph with a perfect elimination ordering passes the test\<close>

lemma nbr_sym: "wf_graph G \<Longrightarrow> nbr G a b \<Longrightarrow> nbr G b a"
  unfolding wf_graph_def nbr_def by blast

lemma nbr_node: "wf_graph G \<Longrightarrow> nbr G a b \<Longrightarrow> a \<in> set (nx_nodes G)"
  unfolding wf_graph_def nbr_def by blast

lemma mcs_search_property:
  assumes wf: "wf_graph G"
    and vs: "vs = mcs G [] (nx_nodes G)"
    and tw: "rank_in w vs < rank_in v vs" and tv: "rank_in v vs < rank_in u vs"
    and wu: "nbr G w u" and wv: "\<not> nbr G w v" and v: "v \<in> set (nx_nodes G)"
  shows "\<exists>x. rank_in x vs < rank_in v vs \<and> nbr G x v \<and> \<not> nbr G x u"
proof -
  have dn: "distinct (nx_nodes G)" using wf unfolding wf_graph_def by blast
  from mcs_structure[OF dn, of G "[]"] obtain rest where
    r: "mcs G [] (nx_nodes G) = [] @ rest" "set rest = set (nx_nodes G)" "distinct rest"
    and rm: "\<And>pre x post. rest = pre @ x # post \<Longrightarrow>
        (\<forall>y\<in>set post. length (visited_nbrs G ([] @ pre) y) \<le> length (visited_nbrs G ([] @ pre) x))"
    by blast
  have rest: "rest = vs" using r(1) vs by simp
  have set_vs: "set vs = set (nx_nodes G)" and dvs: "distinct vs"
    using r(2,3) rest by simp_all
  have mx: "\<forall>y\<in>set post. length (visited_nbrs G pre y) \<le> length (visited_nbrs G pre x)"
    if "vs = pre @ x # post" for pre x post
    using rm[of pre x post] that rest by simp
  have "v \<in> set vs" using v set_vs by simp
  then obtain pre post where split: "vs = pre @ v # post"
    by (auto simp: in_set_conv_decomp)
  have vpre: "v \<notin> set pre" and vpost: "v \<notin> set post" and dis: "set pre \<inter> set post = {}"
    using dvs split by auto
  have tv': "rank_in v vs = length pre" unfolding split using vpre by (rule rank_in_mid)
  have "rank_in w vs < length pre" using tw tv' by simp
  then have wpre: "w \<in> set pre" unfolding split by (rule rank_in_before)
  have "u \<in> set (nx_nodes G)" using nbr_node[OF wf nbr_sym[OF wf wu]] .
  then have "u \<in> set (pre @ v # post)" using set_vs split by simp
  moreover have "length pre < rank_in u (pre @ v # post)" using tv tv' split by simp
  ultimately have upost: "u \<in> set post" by (rule rank_in_after[rotated])
  have le: "length (visited_nbrs G pre u) \<le> length (visited_nbrs G pre v)"
    using mx[OF split] upost by blast
  show ?thesis
  proof (rule ccontr)
    assume no: "\<not> (\<exists>x. rank_in x vs < rank_in v vs \<and> nbr G x v \<and> \<not> nbr G x u)"
    have imp: "x \<in> set (nx_adj G u)" if "x \<in> set pre" "x \<in> set (nx_adj G v)" for x
    proof -
      have "x \<noteq> v" using that(1) vpre by blast
      then have "nbr G v x" using that(2) by (simp add: nbr_def)
      then have xv: "nbr G x v" by (rule nbr_sym[OF wf])
      have "rank_in x vs = rank_in x pre"
        unfolding split using that(1) by (rule rank_in_append)
      then have "rank_in x vs < rank_in v vs"
        using tv' rank_in_less[OF that(1)] by simp
      then have "nbr G x u" using no xv by blast
      then have "nbr G u x" by (rule nbr_sym[OF wf])
      then show ?thesis by (simp add: nbr_def)
    qed
    have "w \<in> set (nx_adj G u)" using nbr_sym[OF wf wu] by (simp add: nbr_def)
    moreover have "w \<notin> set (nx_adj G v)"
    proof
      assume "w \<in> set (nx_adj G v)"
      moreover have "w \<noteq> v" using wpre vpre by blast
      ultimately have "nbr G v w" by (simp add: nbr_def)
      then show False using nbr_sym[OF wf] wv by blast
    qed
    ultimately have "length (filter (\<lambda>x. x \<in> set (nx_adj G v)) pre)
        < length (filter (\<lambda>x. x \<in> set (nx_adj G u)) pre)"
      using imp wpre
      by (intro filter_length_less[of pre "\<lambda>x. x \<in> set (nx_adj G v)" "\<lambda>x. x \<in> set (nx_adj G u)" w])
    then show False using le by (simp add: visited_nbrs_def)
  qed
qed

lemma hole_nodes:
  assumes "wf_graph G" "hole (nbr G) S"
  shows "S \<subseteq> set (nx_nodes G)"
proof
  fix m assume "m \<in> S"
  then obtain a where "nbr G m a" using assms(2) unfolding hole_def by blast
  then show "m \<in> set (nx_nodes G)" using nbr_node[OF assms(1)] by blast
qed

lemma nx_is_chordal_complete:
  assumes wf: "wf_graph G"
    and peo: "peo_rank (nbr G) r"
    and inj: "inj_on r (set (nx_nodes G))"
  shows "nx_is_chordal G"
proof -
  define vs where "vs = mcs G [] (nx_nodes G)"
  define t where "t = (\<lambda>x. rank_in x vs)"
  have dn: "distinct (nx_nodes G)" using wf unfolding wf_graph_def by blast
  from mcs_structure[OF dn, of G "[]"] obtain rest where
    "mcs G [] (nx_nodes G) = [] @ rest" "set rest = set (nx_nodes G)" "distinct rest"
    by blast
  then have set_vs: "set vs = set (nx_nodes G)" and dvs: "distinct vs"
    unfolding vs_def by simp_all
  have sym: "\<And>a b. nbr G a b \<Longrightarrow> nbr G b a" using nbr_sym[OF wf] .
  have irr: "\<And>a. \<not> nbr G a a" by (simp add: nbr_def)
  have fld: "\<And>a b. nbr G a b \<Longrightarrow> a \<in> set (nx_nodes G)" using nbr_node[OF wf] .
  have injt: "inj_on t (set (nx_nodes G))"
    unfolding t_def using inj_on_rank_in[of vs] set_vs by simp
  have P: "\<And>u v w. t w < t v \<Longrightarrow> t v < t u \<Longrightarrow> nbr G w u \<Longrightarrow> \<not> nbr G w v
      \<Longrightarrow> v \<in> set (nx_nodes G) \<Longrightarrow> \<exists>x. t x < t v \<and> nbr G x v \<and> \<not> nbr G x u"
    unfolding t_def using mcs_search_property[OF wf vs_def] by blast
  have holes: "\<not> hole (nbr G) S" for S
  proof
    assume h: "hole (nbr G) S"
    have "inj_on r S" using inj hole_nodes[OF wf h] by (rule inj_on_subset)
    from peo_rank_no_hole[OF peo sym this] h show False by blast
  qed
  have "perfect_elimination G (rev vs)"
  proof (rule perfect_elimination_rev[OF dvs])
    fix pre v post a b
    assume split: "vs = pre @ v # post" and a: "a \<in> set pre" and b: "b \<in> set pre"
      and ab: "a \<noteq> b" and av: "a \<in> set (nx_adj G v)" and bv: "b \<in> set (nx_adj G v)"
    have vpre: "v \<notin> set pre" using dvs split by auto
    have tv: "t v = length pre" unfolding t_def split using vpre by (rule rank_in_mid)
    have "t a = rank_in a pre" unfolding t_def split using a by (rule rank_in_append)
    then have ta: "t a < t v" using tv rank_in_less[OF a] by simp
    have "t b = rank_in b pre" unfolding t_def split using b by (rule rank_in_append)
    then have tb: "t b < t v" using tv rank_in_less[OF b] by simp
    have va: "nbr G v a" using av a vpre by (auto simp: nbr_def)
    have vb: "nbr G v b" using bv b vpre by (auto simp: nbr_def)
    have "nbr G a b"
      by (rule mcs_order_peo[where A = "nbr G" and t = t and U = "set (nx_nodes G)" and v = v])
        (fact sym irr fld injt holes ta tb va vb ab | rule P; assumption)+
    then show "b \<in> set (nx_adj G a)" by (simp add: nbr_def)
  qed
  then show ?thesis unfolding nx_is_chordal_def vs_def .
qed

subsection \<open>The test accepts chordal graphs only\<close>

lemma is_clique_later:
  "is_clique G (pre @ a # post) \<Longrightarrow> b \<in> set post \<Longrightarrow> b \<in> set (nx_adj G a)"
  by (induction pre) auto

lemma perfect_elimination_suffix:
  "perfect_elimination G (pre @ later) \<Longrightarrow> perfect_elimination G later"
  by (induction pre) auto

lemma perfect_elimination_sound:
  assumes wf: "wf_graph G" and d: "distinct vs" and nodes: "set vs = set (nx_nodes G)"
    and pe: "perfect_elimination G vs"
  shows "peo_rank (nbr G) (\<lambda>x. rank_in x vs)"
  unfolding peo_rank_def
proof (intro allI impI)
  fix v a b
  assume h: "rank_in v vs < rank_in a vs \<and> rank_in v vs < rank_in b vs \<and> nbr G v a \<and> nbr G v b \<and> a \<noteq> b"
  then have va: "nbr G v a" and vb: "nbr G v b" and ab: "a \<noteq> b" by simp_all
  have "v \<in> set vs" using nbr_node[OF wf va] nodes by simp
  then obtain pre post where split: "vs = pre @ v # post"
    by (auto simp: in_set_conv_decomp)
  have vpre: "v \<notin> set pre" using d split by auto
  have rv: "rank_in v vs = length pre" unfolding split using vpre by (rule rank_in_mid)
  have later: "n \<in> set post" if "rank_in v vs < rank_in n vs" "nbr G v n" for n
  proof -
    have "n \<in> set (pre @ v # post)"
      using nbr_node[OF wf nbr_sym[OF wf that(2)]] nodes split by simp
    moreover have "length pre < rank_in n (pre @ v # post)" using that(1) rv split by simp
    ultimately show ?thesis by (rule rank_in_after[rotated])
  qed
  have a: "a \<in> set post" and b: "b \<in> set post" using later h by blast+
  let ?ns = "visited_nbrs G post v"
  have cl: "is_clique G ?ns"
    using perfect_elimination_suffix[of G pre "v # post"] pe split by simp
  have ain: "a \<in> set ?ns" and bin: "b \<in> set ?ns"
    using a b va vb by (simp_all add: visited_nbrs_def nbr_def)
  from ain obtain xs ys where ns: "?ns = xs @ a # ys"
    by (auto simp: in_set_conv_decomp)
  have "b \<in> set xs \<or> b \<in> set ys" using bin ab unfolding ns by auto
  then show "nbr G a b"
  proof
    assume "b \<in> set ys"
    then have "b \<in> set (nx_adj G a)" using cl unfolding ns by (rule is_clique_later[rotated])
    then show ?thesis using ab by (simp add: nbr_def)
  next
    assume "b \<in> set xs"
    then obtain xs1 xs2 where "xs = xs1 @ b # xs2" by (auto simp: in_set_conv_decomp)
    then have ns': "?ns = xs1 @ b # (xs2 @ a # ys)" using ns by simp
    have "a \<in> set (xs2 @ a # ys)" by simp
    then have "a \<in> set (nx_adj G b)" using cl unfolding ns' by (rule is_clique_later[rotated])
    then have "nbr G b a" using ab by (simp add: nbr_def)
    then show ?thesis by (rule nbr_sym[OF wf])
  qed
qed

text \<open>
  So the test decides chordality as the spec defines it: a graph passes exactly when its
  vertices can be ranked into a perfect elimination ordering, and then it has no hole.
\<close>

lemma nx_is_chordal_iff_peo:
  assumes wf: "wf_graph G"
  shows "nx_is_chordal G \<longleftrightarrow> (\<exists>r. inj_on r (set (nx_nodes G)) \<and> peo_rank (nbr G) r)"
proof
  assume c: "nx_is_chordal G"
  let ?vs = "rev (mcs G [] (nx_nodes G))"
  have dn: "distinct (nx_nodes G)" using wf unfolding wf_graph_def by blast
  from mcs_structure[OF dn, of G "[]"] obtain rest where
    "mcs G [] (nx_nodes G) = [] @ rest" "set rest = set (nx_nodes G)" "distinct rest"
    by blast
  then have s: "set ?vs = set (nx_nodes G)" and d: "distinct ?vs" by simp_all
  have "peo_rank (nbr G) (\<lambda>x. rank_in x ?vs)"
    using wf d s c[unfolded nx_is_chordal_def] by (rule perfect_elimination_sound)
  moreover have "inj_on (\<lambda>x. rank_in x ?vs) (set (nx_nodes G))"
    using inj_on_rank_in[of ?vs] s by simp
  ultimately show "\<exists>r. inj_on r (set (nx_nodes G)) \<and> peo_rank (nbr G) r" by blast
next
  assume "\<exists>r. inj_on r (set (nx_nodes G)) \<and> peo_rank (nbr G) r"
  then obtain r where "inj_on r (set (nx_nodes G))" "peo_rank (nbr G) r" by blast
  with wf show "nx_is_chordal G" by (intro nx_is_chordal_complete[of G r])
qed

lemma nx_is_chordal_no_hole:
  assumes "wf_graph G" and "nx_is_chordal G"
  shows "\<not> hole (nbr G) S"
proof
  assume h: "hole (nbr G) S"
  from assms obtain r where r: "inj_on r (set (nx_nodes G))" "peo_rank (nbr G) r"
    using nx_is_chordal_iff_peo by blast
  have "inj_on r S" using r(1) hole_nodes[OF assms(1) h] by (rule inj_on_subset)
  from peo_rank_no_hole[OF r(2) _ this] nbr_sym[OF assms(1)] h show False by blast
qed

text \<open>The scenarios of the spec: a cycle of four is not chordal, a triangle and the graph
  without edges are.\<close>

lemma nx_is_chordal_scenarios:
  "\<not> nx_is_chordal (add_edges_from [(''A'', ''B''), (''B'', ''C''), (''C'', ''D''), (''D'', ''A'')] Graph)"
  "nx_is_chordal (add_edges_from [(''A'', ''C''), (''B'', ''C''), (''A'', ''B'')] Graph)"
  "nx_is_chordal (add_edges_from [] Graph)"
  by code_simp+

section \<open>The elimination game\<close>

text \<open>
  The invariant of the loop \<open>for v in temp_V\<close>, with \<open>D\<close> the vertices eliminated so far:
  \<open>temp_E\<close> holds exactly the edges of \<open>chordal_E\<close> between vertices that are not in \<open>D\<close>.
  Eliminating \<open>v\<close> joins all its remaining neighbours, and no later step adds an edge
  at \<open>v\<close>.
\<close>

subsection \<open>One step of the elimination\<close>

lemma set_adj_list: "n \<in> set (adj_list v es) \<longleftrightarrow> n \<noteq> v \<and> joined es v n"
proof (induction es)
  case Nil
  show ?case by (simp add: adj_list_def joined_Nil)
next
  case (Cons e es)
  have "n \<in> set (adj_list v (e # es)) \<longleftrightarrow>
      ((v = fst e \<or> v = snd e) \<and> n \<noteq> v \<and> (n = fst e \<or> n = snd e)) \<or> n \<in> set (adj_list v es)"
    by (auto simp: adj_list_def)
  also have "\<dots> \<longleftrightarrow> n \<noteq> v \<and> joined (e # es) v n"
    unfolding Cons joined_Cons by blast
  finally show ?case .
qed

lemma fold_invariant:
  assumes "\<And>x s. Q s \<Longrightarrow> Q (f x s)" and "Q s"
  shows "Q (fold f xs s)"
  using assms(2) by (induction xs arbitrary: s) (simp_all add: assms(1))

lemma snd_fill_in:
  "set (snd (fill_in adj_v (cE, tE))) = set tE \<union> (set (fst (fill_in adj_v (cE, tE))) - set cE)"
proof -
  define Q where "Q = (\<lambda>st :: edge list \<times> edge list.
      set cE \<subseteq> set (fst st) \<and> set (snd st) = set tE \<union> (set (fst st) - set cE))"
  have step: "Q (fill_pair a1 a2 st)" if "Q st" for a1 a2 st
  proof (cases "a1 \<noteq> a2 \<and> (a1, a2) \<notin> set (fst st) \<and> (a2, a1) \<notin> set (fst st)")
    case True
    then have "fill_pair a1 a2 st = (fst st @ [(a1, a2)], snd st @ [(a1, a2)])"
      by (simp add: fill_pair_def Let_def)
    moreover have "(a1, a2) \<notin> set cE" using True that unfolding Q_def by blast
    ultimately show ?thesis using that unfolding Q_def by auto
  next
    case False
    then have "fill_pair a1 a2 st = st" by (auto simp: fill_pair_def Let_def)
    then show ?thesis using that by simp
  qed
  have row: "Q (fold (\<lambda>a2. fill_pair a1 a2) bs st)" if "Q st" for a1 bs st
    using step that by (rule fold_invariant)
  have "Q (fold (\<lambda>a1. fold (\<lambda>a2. fill_pair a1 a2) adj_v) adj_v (cE, tE))"
  proof (rule fold_invariant)
    show "Q (cE, tE)" by (simp add: Q_def)
    show "\<And>x s. Q s \<Longrightarrow> Q (fold (\<lambda>a2. fill_pair x a2) adj_v s)" by (rule row)
  qed
  then show ?thesis unfolding Q_def fill_in_def by blast
qed

lemma eliminate_step:
  assumes inv: "set tE = {e \<in> set cE. fst e \<notin> D \<and> snd e \<notin> D}"
    and vD: "v \<notin> D"
    and it: "\<And>xs. set (set_iter rt xs) = set xs"
    and st: "eliminate rt v (cE, tE) = (cE', tE')"
  shows "grows cE cE'"
    and "\<And>e. e \<in> set cE' \<Longrightarrow> e \<notin> set cE \<Longrightarrow>
            fst e \<notin> insert v D \<and> snd e \<notin> insert v D \<and> fst e \<in> ends cE \<and> snd e \<in> ends cE"
    and "set tE' = {e \<in> set cE'. fst e \<notin> insert v D \<and> snd e \<notin> insert v D}"
    and "\<And>a b. a \<notin> insert v D \<Longrightarrow> b \<notin> insert v D \<Longrightarrow> a \<noteq> b \<Longrightarrow> joined cE' v a
            \<Longrightarrow> joined cE' v b \<Longrightarrow> joined cE' a b"
proof -
  define adj_v where "adj_v = set_iter rt (adj_list v tE)"
  have cE': "cE' = marry_parents adj_v cE"
    using st fst_eliminate[of rt v "(cE, tE)"] by (simp add: adj_v_def)
  have tE': "tE' = filter (\<lambda>edge. v \<noteq> fst edge \<and> v \<noteq> snd edge) (snd (fill_in adj_v (cE, tE)))"
    using st by (simp add: eliminate_def Let_def adj_v_def)
  have fst_fill: "fst (fill_in adj_v (cE, tE)) = cE'"
    by (simp add: fst_fill_in cE')
  have adj: "n \<in> set adj_v \<longleftrightarrow> n \<noteq> v \<and> joined tE v n" for n
    unfolding adj_v_def it by (rule set_adj_list)
  have adjD: "n \<notin> insert v D \<and> n \<in> ends cE" if "n \<in> set adj_v" for n
  proof -
    have "n \<noteq> v" and j: "joined tE v n" using that adj by blast+
    from j have "(v, n) \<in> set tE \<or> (n, v) \<in> set tE" by (simp add: joined_def)
    then have "n \<notin> D \<and> n \<in> ends cE" using inv by (force simp: ends_def)
    then show ?thesis using \<open>n \<noteq> v\<close> by simp
  qed
  show g: "grows cE cE'" unfolding cE' by (rule grows_marry_parents)
  show new: "fst e \<notin> insert v D \<and> snd e \<notin> insert v D \<and> fst e \<in> ends cE \<and> snd e \<in> ends cE"
    if "e \<in> set cE'" "e \<notin> set cE" for e
  proof -
    have "e \<in> set adj_v \<times> set adj_v"
      using that set_marry_parents[of adj_v cE] unfolding cE' by blast
    then have "fst e \<in> set adj_v" "snd e \<in> set adj_v" by auto
    then show ?thesis using adjD by blast
  qed
  have sub: "set cE \<subseteq> set cE'" using g by (rule grows_subset)
  have tE'_set: "set tE' = {e \<in> set tE \<union> (set cE' - set cE). v \<noteq> fst e \<and> v \<noteq> snd e}"
    unfolding tE' set_filter snd_fill_in fst_fill ..
  show "set tE' = {e \<in> set cE'. fst e \<notin> insert v D \<and> snd e \<notin> insert v D}"
  proof (intro set_eqI iffI)
    fix e assume "e \<in> set tE'"
    then have nv: "v \<noteq> fst e" "v \<noteq> snd e"
      and "e \<in> set tE \<or> (e \<in> set cE' \<and> e \<notin> set cE)"
      unfolding tE'_set by auto
    then show "e \<in> {e \<in> set cE'. fst e \<notin> insert v D \<and> snd e \<notin> insert v D}"
      using inv sub new[of e] by auto
  next
    fix e assume "e \<in> {e \<in> set cE'. fst e \<notin> insert v D \<and> snd e \<notin> insert v D}"
    then have e: "e \<in> set cE'" "fst e \<notin> D" "snd e \<notin> D" "v \<noteq> fst e" "v \<noteq> snd e" by auto
    have "e \<in> set tE \<or> (e \<in> set cE' \<and> e \<notin> set cE)" using e inv by auto
    then show "e \<in> set tE'" unfolding tE'_set using e(4,5) by auto
  qed
  show "joined cE' a b"
    if a: "a \<notin> insert v D" and b: "b \<notin> insert v D" and ab: "a \<noteq> b"
      and ja: "joined cE' v a" and jb: "joined cE' v b" for a b
  proof -
    have nbr_in: "n \<in> set adj_v" if n: "n \<notin> insert v D" and j: "joined cE' v n" for n
    proof -
      from j obtain e where e: "e \<in> set cE'" "e = (v, n) \<or> e = (n, v)"
        by (auto simp: joined_def)
      have "e \<in> set cE"
      proof (rule ccontr)
        assume "e \<notin> set cE"
        from new[OF e(1) this] e(2) show False by auto
      qed
      moreover have "fst e \<notin> D" "snd e \<notin> D" using e(2) n vD by auto
      ultimately have "e \<in> set tE" unfolding inv by simp
      then have "joined tE v n" using e(2) unfolding joined_def by blast
      then show ?thesis using adj n by simp
    qed
    have "joined (marry_parents adj_v cE) a b"
      using nbr_in[OF a ja] nbr_in[OF b jb] ab by (rule joined_marry_parents)
    then show ?thesis by (simp add: cE')
  qed
qed

subsection \<open>The whole elimination\<close>

lemma elimination_invariant:
  assumes it: "\<And>xs. set (set_iter rt xs) = set xs"
  shows "set tE = {e \<in> set cE. fst e \<notin> D \<and> snd e \<notin> D} \<Longrightarrow> distinct vs \<Longrightarrow> set vs \<inter> D = {} \<Longrightarrow>
     (\<forall>e\<in>set (fst (fold (eliminate rt) vs (cE, tE))) - set cE.
          fst e \<notin> D \<and> snd e \<notin> D \<and> fst e \<in> ends cE \<and> snd e \<in> ends cE) \<and>
     (\<forall>pre v post a b. vs = pre @ v # post \<longrightarrow> a \<notin> D \<union> set pre \<union> {v} \<longrightarrow> b \<notin> D \<union> set pre \<union> {v}
          \<longrightarrow> a \<noteq> b \<longrightarrow> joined (fst (fold (eliminate rt) vs (cE, tE))) v a
          \<longrightarrow> joined (fst (fold (eliminate rt) vs (cE, tE))) v b
          \<longrightarrow> joined (fst (fold (eliminate rt) vs (cE, tE))) a b)"
proof (induction vs arbitrary: cE tE D)
  case Nil
  show ?case by simp
next
  case (Cons x vs)
  obtain cE1 tE1 where st: "eliminate rt x (cE, tE) = (cE1, tE1)" by (cases "eliminate rt x (cE, tE)")
  have xD: "x \<notin> D" using Cons.prems(3) by simp
  note step = eliminate_step[OF Cons.prems(1) xD it st]
  let ?R = "fst (fold (eliminate rt) vs (cE1, tE1))"
  have R: "fst (fold (eliminate rt) (x # vs) (cE, tE)) = ?R" by (simp add: st)
  have d: "distinct vs" and dis: "set vs \<inter> insert x D = {}"
    using Cons.prems(2,3) by auto
  from Cons.IH[OF step(3) d dis]
  have new2: "\<And>e. e \<in> set ?R \<Longrightarrow> e \<notin> set cE1 \<Longrightarrow>
        fst e \<notin> insert x D \<and> snd e \<notin> insert x D \<and> fst e \<in> ends cE1 \<and> snd e \<in> ends cE1"
    and peo2: "\<And>pre v post a b. vs = pre @ v # post \<Longrightarrow> a \<notin> insert x D \<union> set pre \<union> {v}
        \<Longrightarrow> b \<notin> insert x D \<union> set pre \<union> {v} \<Longrightarrow> a \<noteq> b \<Longrightarrow> joined ?R v a \<Longrightarrow> joined ?R v b
        \<Longrightarrow> joined ?R a b"
    by blast+
  have g2: "grows cE1 ?R" using grows_elimination[of "(cE1, tE1)" rt vs] by simp
  have ends1: "ends cE1 \<subseteq> ends cE"
  proof
    fix n assume "n \<in> ends cE1"
    then obtain e where e: "e \<in> set cE1" "n = fst e \<or> n = snd e" by (auto simp: ends_def)
    show "n \<in> ends cE"
    proof (cases "e \<in> set cE")
      case True
      then show ?thesis using e(2) by (auto simp: ends_def)
    next
      case False
      then show ?thesis using step(2)[OF e(1) False] e(2) by auto
    qed
  qed
  have new: "fst e \<notin> D \<and> snd e \<notin> D \<and> fst e \<in> ends cE \<and> snd e \<in> ends cE"
    if "e \<in> set ?R" "e \<notin> set cE" for e
  proof (cases "e \<in> set cE1")
    case True
    then show ?thesis using step(2)[OF True that(2)] by simp
  next
    case False
    then show ?thesis using new2[OF that(1) False] ends1 by auto
  qed
  have at_x: "joined cE1 x n" if "joined ?R x n" for n
  proof -
    from that obtain e where e: "e \<in> set ?R" "e = (x, n) \<or> e = (n, x)"
      by (auto simp: joined_def)
    have "e \<in> set cE1"
    proof (rule ccontr)
      assume "e \<notin> set cE1"
      from new2[OF e(1) this] e(2) show False by auto
    qed
    then show ?thesis using e(2) by (auto simp: joined_def)
  qed
  have peo': "joined ?R a b"
    if split: "x # vs = pre @ v # post" and a: "a \<notin> D \<union> set pre \<union> {v}"
      and b: "b \<notin> D \<union> set pre \<union> {v}" and ab: "a \<noteq> b"
      and ja: "joined ?R v a" and jb: "joined ?R v b" for pre v post a b
  proof (cases pre)
    case Nil
    then have v: "v = x" using split by simp
    have "joined cE1 a b"
      using step(4)[of a b] a b ab at_x[of a] at_x[of b] ja jb unfolding v Nil by simp
    then show ?thesis using grows_joined_mono[OF g2] by blast
  next
    case (Cons p pre')
    then have "p = x" "vs = pre' @ v # post" using split by simp_all
    then show ?thesis using peo2[of pre' v post a b] a b ab ja jb Cons by simp
  qed
  show ?case unfolding R using new peo' by blast
qed

subsection \<open>The triangulated graph is chordal\<close>

lemma elimination_chordal:
  assumes ds: "distinct vs" and cover: "ends m \<subseteq> set vs"
    and it: "\<And>xs. set (set_iter rt xs) = set xs"
  shows "nx_is_chordal (add_edges_from (fst (fold (eliminate rt) vs (m, m))) Graph)"
proof -
  let ?R = "fst (fold (eliminate rt) vs (m, m))"
  let ?G = "add_edges_from ?R Graph"
  define r where "r = (\<lambda>x. rank_in x vs)"
  have inv: "set m = {e \<in> set m. fst e \<notin> {} \<and> snd e \<notin> {}}" by simp
  have dis: "set vs \<inter> {} = {}" by simp
  from elimination_invariant[OF it inv ds dis]
  have new: "\<And>e. e \<in> set ?R \<Longrightarrow> e \<notin> set m \<Longrightarrow> fst e \<in> ends m \<and> snd e \<in> ends m"
    and peo: "\<And>pre v post a b. vs = pre @ v # post \<Longrightarrow> a \<notin> {} \<union> set pre \<union> {v}
        \<Longrightarrow> b \<notin> {} \<union> set pre \<union> {v} \<Longrightarrow> a \<noteq> b \<Longrightarrow> joined ?R v a \<Longrightarrow> joined ?R v b
        \<Longrightarrow> joined ?R a b"
    by blast+
  have ends_R: "ends ?R \<subseteq> set vs"
  proof
    fix n assume "n \<in> ends ?R"
    then obtain e where e: "e \<in> set ?R" "n = fst e \<or> n = snd e" by (auto simp: ends_def)
    have "fst e \<in> ends m \<and> snd e \<in> ends m"
    proof (cases "e \<in> set m")
      case True
      then show ?thesis by (auto simp: ends_def)
    next
      case False
      then show ?thesis using new[OF e(1)] by simp
    qed
    then show "n \<in> set vs" using e(2) cover by auto
  qed
  have wf: "wf_graph ?G" by (rule wf_graph_of)
  have inj: "inj_on r (set (nx_nodes ?G))"
    unfolding r_def nodes_graph_of using inj_on_rank_in[of vs] ends_R by (rule inj_on_subset)
  have "peo_rank (nbr ?G) r"
    unfolding peo_rank_def
  proof (intro allI impI)
    fix v a b
    assume h: "r v < r a \<and> r v < r b \<and> nbr ?G v a \<and> nbr ?G v b \<and> a \<noteq> b"
    then have ja: "joined ?R v a" and jb: "joined ?R v b" and va: "v \<noteq> a" and vb: "v \<noteq> b"
      and ab: "a \<noteq> b"
      by (simp_all add: nbr_graph_of)
    have "v \<in> set vs" using joined_ends[OF ja] ends_R by blast
    then obtain pre post where split: "vs = pre @ v # post"
      by (auto simp: in_set_conv_decomp)
    have vpre: "v \<notin> set pre" using ds split by auto
    have rv: "r v = length pre" unfolding r_def split using vpre by (rule rank_in_mid)
    have out: "n \<notin> {} \<union> set pre \<union> {v}" if "r v < r n" "v \<noteq> n" for n
    proof -
      have "n \<notin> set pre"
      proof
        assume n: "n \<in> set pre"
        then have "r n = rank_in n pre" unfolding r_def split by (rule rank_in_append)
        then show False using rank_in_less[OF n] that(1) rv by simp
      qed
      then show ?thesis using that(2) by simp
    qed
    have "joined ?R a b"
      using split out out ab ja jb
    proof (rule peo)
      show "r v < r a" "v \<noteq> a" "r v < r b" "v \<noteq> b" using h va vb by simp_all
    qed
    then show "nbr ?G a b" using ab by (simp add: nbr_graph_of)
  qed
  with wf show ?thesis using inj by (rule nx_is_chordal_complete)
qed

lemma chordal_E_nx_chordal:
  assumes "hash_order (dict_iter rt)" and "hash_order (set_iter rt)"
    and "chordal_E rt bn None None = Inr result"
  shows "nx_is_chordal (add_edges_from result Graph)"
proof -
  obtain moral where m: "get_moralized_edge_list bn = Inr moral"
    using assms(3) by (auto simp: chordal_E_def split: sum.splits)
  have gm: "grows (E bn) moral"
    using m grows_moralize_nodes by (simp add: get_moralized_edge_list_def)
  show ?thesis
  proof (cases "is_chordal bn (Some moral)")
    case True
    then have res: "result = moral" using assms(3) m by (simp add: chordal_E_def)
    have "(if moral = [] then E bn else moral) = moral"
      using grows_prefix[OF gm] by auto
    then show ?thesis using True unfolding res by (simp add: is_chordal_def)
  next
    case False
    let ?vs = "degree_order rt (add_edges_from moral Graph)"
    have res: "result = fst (fold (eliminate rt) ?vs (moral, moral))"
      using assms(3) m False by (simp add: chordal_E_def truthy_def)
    have "distinct ?vs" using degree_order_props(2)[OF assms(1)] .
    moreover have "ends moral \<subseteq> set ?vs"
      using degree_order_props(1)[OF assms(1), of "add_edges_from moral Graph"]
      by (simp add: nodes_graph_of)
    moreover have "\<And>xs. set (set_iter rt xs) = set xs"
      using assms(2) by (simp add: hash_order_def)
    ultimately show ?thesis unfolding res by (rule elimination_chordal)
  qed
qed

subsection \<open>Moralizing a list that has the parent pairs\<close>

lemma link_noop: "a = b \<or> joined es a b \<Longrightarrow> link a b es = es"
  by (auto simp: link_def joined_def)

lemma marry_parents_noop:
  assumes "\<And>p1 p2. p1 \<in> set ps \<Longrightarrow> p2 \<in> set ps \<Longrightarrow> p1 \<noteq> p2 \<Longrightarrow> joined es p1 p2"
  shows "marry_parents ps es = es"
proof -
  have row: "fold (\<lambda>p2. link p1 p2) qs es = es" if "p1 \<in> set ps" "set qs \<subseteq> set ps" for p1 qs
    using that(2)
  proof (induction qs)
    case Nil
    show ?case by simp
  next
    case (Cons q qs)
    have "link p1 q es = es" using assms[of p1 q] that(1) Cons.prems by (intro link_noop) auto
    then show ?case using Cons by simp
  qed
  have "fold (\<lambda>p1. fold (\<lambda>p2. link p1 p2) ps) qs es = es" if "set qs \<subseteq> set ps" for qs
    using that
  proof (induction qs)
    case Nil
    show ?case by simp
  next
    case (Cons q qs)
    have "fold (\<lambda>p2. link q p2) ps es = es" using row[of q ps] Cons.prems by simp
    then show ?case using Cons by simp
  qed
  then show ?thesis unfolding marry_parents_def by simp
qed

lemma moralize_nodes_noop:
  assumes "\<And>n. n \<in> set ns \<Longrightarrow> \<exists>ps. parent_list (bn :: BayesNet) n = Some ps \<and>
      (\<forall>p1\<in>set ps. \<forall>p2\<in>set ps. p1 \<noteq> p2 \<longrightarrow> joined es p1 p2)"
  shows "moralize_nodes (data bn) ns es = Inr es"
  using assms
proof (induction ns)
  case Nil
  show ?case by simp
next
  case (Cons n ns)
  from Cons.prems[of n] obtain ps where ps: "parent_list bn n = Some ps"
    and j: "\<And>p1 p2. p1 \<in> set ps \<Longrightarrow> p2 \<in> set ps \<Longrightarrow> p1 \<noteq> p2 \<Longrightarrow> joined es p1 p2"
    by auto
  have "marry_parents ps es = es" using j by (rule marry_parents_noop)
  then show ?case unfolding moralize_nodes_Cons ps using Cons by simp
qed

lemma remoralize:
  assumes "get_moralized_edge_list bn = Inr moral" and "grows moral result"
  shows "get_moralized_edge_list (bn\<lparr>E := result\<rparr>) = Inr result"
proof -
  have mn: "moralize_nodes (data bn) (V bn) (E bn) = Inr moral"
    using assms(1) by (simp add: get_moralized_edge_list_def)
  have "\<exists>ps. parent_list bn n = Some ps \<and>
      (\<forall>p1\<in>set ps. \<forall>p2\<in>set ps. p1 \<noteq> p2 \<longrightarrow> joined result p1 p2)" if n: "n \<in> set (V bn)" for n
  proof -
    obtain ps where ps: "parent_list bn n = Some ps"
      using moralize_nodes_ok[of bn "V bn" "E bn"] mn n by auto
    have "joined result p1 p2" if "p1 \<in> set ps" "p2 \<in> set ps" "p1 \<noteq> p2" for p1 p2
      using grows_joined_mono[OF assms(2) moralize_nodes_married[OF mn n ps that]] .
    then show ?thesis using ps by blast
  qed
  then have "moralize_nodes (data bn) (V bn) result = Inr result"
    by (rule moralize_nodes_noop)
  then show ?thesis by (simp add: get_moralized_edge_list_def)
qed

lemma grows_chordal_E:
  assumes "get_moralized_edge_list bn = Inr moral" and "chordal_E rt bn None None = Inr result"
  shows "grows moral result"
proof -
  have "grows moral (fst (fold (eliminate rt) vs (moral, moral)))" for vs
    using grows_elimination[of "(moral, moral)" rt vs] by simp
  then show ?thesis
    using assms by (auto simp: chordal_E_def grows_refl truthy_def split: if_splits)
qed

section \<open>The claims\<close>

text \<open>
  \<^bold>\<open>C1\<close>. Without overrides, the edge list \<open>get_chordal_nx\<close> ends with is chordal, whichever
  order the dictionary and the set hand out their elements in: \<open>is_chordal\<close> holds of it,
  and the graph the method returns passes the chordality test. This includes the lists
  the elimination has filled in.
\<close>

theorem triangulation_is_chordal:
  assumes "hash_order (dict_iter rt)" and "hash_order (set_iter rt)"
    and "chordal_E rt bn None None = Inr result"
  shows "is_chordal bn (Some result) \<and>
         get_chordal_nx rt bn None None = Inr (add_edges_from result Graph) \<and>
         nx_is_chordal (add_edges_from result Graph)"
proof -
  have c: "nx_is_chordal (add_edges_from result Graph)"
    using assms by (rule chordal_E_nx_chordal)
  obtain moral where m: "get_moralized_edge_list bn = Inr moral"
    using assms(3) by (auto simp: chordal_E_def split: sum.splits)
  have "grows (E bn) moral"
    using m grows_moralize_nodes by (simp add: get_moralized_edge_list_def)
  then have "grows (E bn) result"
    using grows_chordal_E[OF m assms(3)] by (rule grows_trans)
  then have "(if result = [] then E bn else result) = result"
    using grows_prefix by auto
  then have "is_chordal bn (Some result)" using c by (simp add: is_chordal_def)
  then show ?thesis using c assms(3) by (simp add: get_chordal_nx_def)
qed

theorem triangulation_is_chordal_witness:
  "hash_order (dict_iter insertion_order) \<and> hash_order (set_iter insertion_order) \<and>
   get_moralized_edge_list pentagon = Inr pentagon_moral \<and>
   \<not> is_chordal pentagon (Some pentagon_moral) \<and>
   chordal_E insertion_order pentagon None None = Inr (pentagon_moral @ [(''B'', ''C'')]) \<and>
   is_chordal pentagon (Some (pentagon_moral @ [(''B'', ''C'')]))"
proof -
  have h1: "hash_order (dict_iter insertion_order)"
    by (simp add: insertion_order_def hash_order_remdups)
  have h2: "hash_order (set_iter insertion_order)"
    by (simp add: insertion_order_def hash_order_remdups)
  have h3: "chordal_E insertion_order pentagon None None = Inr (pentagon_moral @ [(''B'', ''C'')])"
    by code_simp
  have m: "get_moralized_edge_list pentagon = Inr pentagon_moral" by code_simp
  have n: "\<not> is_chordal pentagon (Some pentagon_moral)" by code_simp
  from triangulation_is_chordal[OF h1 h2 h3] h1 h2 h3 m n show ?thesis by blast
qed

text \<open>
  \<^bold>\<open>C2\<close> fails as stated. Called with the vertex \<open>A\<close> and the edge \<open>A - B\<close> of the network as
  overrides, \<open>get_chordal_nx\<close> triangulates that edge alone: the moral edge \<open>C - D\<close>, like
  every other, is not in the result.
\<close>

theorem override_drops_moral_edge:
  "get_moralized_edge_list pentagon = Inr pentagon_moral \<and>
   (''C'', ''D'') \<in> set pentagon_moral \<and>
   chordal_E insertion_order pentagon (Some [''A'']) (Some [(''A'', ''B'')]) = Inr [(''A'', ''B'')] \<and>
   \<not> joined [(''A'', ''B'')] ''C'' ''D''"
  by code_simp

text \<open>
  \<^bold>\<open>C2\<close>, amended. The result is the edge list the elimination starts from, followed by the
  edges filled in. That list is the moral edge list unless both overrides are given and
  the moral graph is not chordal; then it is the override \<open>e\<close>.
\<close>

theorem start_edges_kept:
  assumes "get_moralized_edge_list bn = Inr moral" and "chordal_E rt bn v e = Inr result"
  shows "if truthy v \<and> truthy e \<and> \<not> is_chordal bn (Some moral)
         then (\<exists>fill. result = the e @ fill) \<and> set (the e) \<subseteq> set result
         else (\<exists>fill. result = moral @ fill) \<and> set moral \<subseteq> set result"
proof -
  have g: "grows start (fst (fold (eliminate rt) vs (start, start)))" for start vs
    using grows_elimination[of "(start, start)" rt vs] by simp
  show ?thesis
  proof (cases "is_chordal bn (Some moral)")
    case True
    then show ?thesis using assms by (simp add: chordal_E_def)
  next
    case False
    show ?thesis
    proof (cases "truthy v \<and> truthy e")
      case True
      then have "result = fst (fold (eliminate rt) (the v) (the e, the e))"
        using assms False by (simp add: chordal_E_def)
      then show ?thesis
        using True False grows_prefix[OF g[of "the e" "the v"]] grows_subset[OF g[of "the e" "the v"]]
        by simp
    next
      case nt: False
      then have "result = fst (fold (eliminate rt)
          (degree_order rt (add_edges_from moral Graph)) (moral, moral))"
        using assms False by (auto simp: chordal_E_def)
      moreover have "\<not> (truthy v \<and> truthy e \<and> \<not> is_chordal bn (Some moral))"
        using nt by blast
      ultimately show ?thesis
        using grows_prefix[OF g[of moral "degree_order rt (add_edges_from moral Graph)"]]
          grows_subset[OF g[of moral "degree_order rt (add_edges_from moral Graph)"]]
        by (simp only: if_False)
    qed
  qed
qed

theorem start_edges_kept_witness:
  "get_moralized_edge_list pentagon = Inr pentagon_moral \<and>
   chordal_E insertion_order pentagon None None = Inr (pentagon_moral @ [(''B'', ''C'')]) \<and>
   set pentagon_moral \<subseteq> set (pentagon_moral @ [(''B'', ''C'')])"
proof -
  have h1: "get_moralized_edge_list pentagon = Inr pentagon_moral" by code_simp
  have h2: "chordal_E insertion_order pentagon None None = Inr (pentagon_moral @ [(''B'', ''C'')])"
    by code_simp
  have "\<not> (truthy (None :: vertex list option) \<and> truthy (None :: edge list option)
      \<and> \<not> is_chordal pentagon (Some pentagon_moral))"
    by (simp add: truthy_def)
  with start_edges_kept[OF h1 h2] h1 h2 show ?thesis by simp
qed

text \<open>
  \<^bold>\<open>C3\<close>. When \<open>is_chordal\<close> holds of the moral edge list, \<open>get_chordal_nx\<close> returns the
  graph of exactly that list, whatever \<open>v\<close> and \<open>e\<close> are: its adjacency is the adjacency of
  the moral edges, and nothing is filled in.
\<close>

theorem chordal_moral_graph_unchanged:
  assumes "get_moralized_edge_list bn = Inr moral" and "is_chordal bn (Some moral)"
  shows "chordal_E rt bn v e = Inr moral \<and>
         get_chordal_nx rt bn v e = Inr (add_edges_from moral Graph) \<and>
         (\<forall>a b. b \<in> set (nx_adj (add_edges_from moral Graph) a) \<longleftrightarrow> joined moral a b)"
  using assms by (simp add: chordal_E_def get_chordal_nx_def adj_graph_of)

theorem chordal_moral_graph_unchanged_witness:
  "get_moralized_edge_list common_child = Inr [(''A'', ''C''), (''B'', ''C''), (''A'', ''B'')] \<and>
   is_chordal common_child (Some [(''A'', ''C''), (''B'', ''C''), (''A'', ''B'')]) \<and>
   chordal_E insertion_order common_child None None
     = Inr [(''A'', ''C''), (''B'', ''C''), (''A'', ''B'')]"
proof -
  have m: "get_moralized_edge_list common_child = Inr [(''A'', ''C''), (''B'', ''C''), (''A'', ''B'')]"
    by code_simp
  have c: "is_chordal common_child (Some [(''A'', ''C''), (''B'', ''C''), (''A'', ''B'')])"
    by code_simp
  from chordal_moral_graph_unchanged[OF m c, of insertion_order None None] m c
  show ?thesis by blast
qed

text \<open>
  \<^bold>\<open>C4\<close>. The moralized edge list is the network's edge list followed by new edges, each
  appended only when nothing in the list before it joined its two different end points;
  two different vertices are joined in it exactly when the network joins them or they are
  parents of one vertex of \<open>V\<close>. For \<open>A \<rightarrow> C\<close>, \<open>B \<rightarrow> C\<close> the list is \<open>(A,C), (B,C), (A,B)\<close>.
\<close>

theorem moralized_edge_list_characterised:
  "(get_moralized_edge_list bn = Inr moral \<longrightarrow>
      grows (E bn) moral \<and>
      (\<forall>a b. a \<noteq> b \<longrightarrow>
         (joined moral a b \<longleftrightarrow>
            joined (E bn) a b \<or>
            (\<exists>node\<in>set (V bn). \<exists>ps. parent_list bn node = Some ps \<and> a \<in> set ps \<and> b \<in> set ps)))) \<and>
   get_moralized_edge_list common_child = Inr [(''A'', ''C''), (''B'', ''C''), (''A'', ''B'')]"
proof (intro conjI impI allI)
  assume m: "get_moralized_edge_list bn = Inr moral"
  then have mn: "moralize_nodes (data bn) (V bn) (E bn) = Inr moral"
    by (simp add: get_moralized_edge_list_def)
  show "grows (E bn) moral" using mn by (rule grows_moralize_nodes)
  fix a b :: vertex
  assume ab: "a \<noteq> b"
  show "joined moral a b \<longleftrightarrow>
            joined (E bn) a b \<or>
            (\<exists>node\<in>set (V bn). \<exists>ps. parent_list bn node = Some ps \<and> a \<in> set ps \<and> b \<in> set ps)"
    using moralize_nodes_joined[OF mn, of a b] moralize_nodes_married[OF mn _ _ _ _ ab]
      grows_joined_mono[OF grows_moralize_nodes[OF mn], of a b]
    by blast
next
  show "get_moralized_edge_list common_child = Inr [(''A'', ''C''), (''B'', ''C''), (''A'', ''B'')]"
    by code_simp
qed

theorem moralized_edge_list_characterised_witness:
  "get_moralized_edge_list common_child = Inr [(''A'', ''C''), (''B'', ''C''), (''A'', ''B'')] \<and>
   grows (E common_child) [(''A'', ''C''), (''B'', ''C''), (''A'', ''B'')] \<and>
   (joined [(''A'', ''C''), (''B'', ''C''), (''A'', ''B'')] ''A'' ''B'' \<longleftrightarrow>
      joined (E common_child) ''A'' ''B'' \<or>
      (\<exists>node\<in>set (V common_child). \<exists>ps. parent_list common_child node = Some ps
          \<and> ''A'' \<in> set ps \<and> ''B'' \<in> set ps))"
proof -
  have m: "get_moralized_edge_list common_child = Inr [(''A'', ''C''), (''B'', ''C''), (''A'', ''B'')]"
    by code_simp
  have ne: "''A'' \<noteq> ''B''" by simp
  note t = moralized_edge_list_characterised[of common_child
      "[(''A'', ''C''), (''B'', ''C''), (''A'', ''B'')]", THEN conjunct1, THEN mp, OF m]
  note g = t[THEN conjunct1]
  note j = t[THEN conjunct2, THEN spec, THEN spec, THEN mp, OF ne]
  show ?thesis by (intro conjI m g j)
qed

text \<open>
  \<^bold>\<open>C5\<close> fails as stated. \<open>is_chordal\<close> replaces an empty argument by the network's own edge
  list: on the network whose edges form a cycle of five, it is false of the empty list.
\<close>

theorem is_chordal_empty_false:
  "is_chordal pentagon (Some []) = False"
  by code_simp

text \<open>
  \<^bold>\<open>C5\<close>, amended. \<open>is_chordal\<close> of the empty edge list is \<open>is_chordal\<close> of the network's own
  edge list \<open>E\<close>, as for the argument \<open>None\<close>; it is true when the network has no edges.
\<close>

theorem is_chordal_empty_own_edges:
  "is_chordal bn (Some []) = is_chordal bn (Some (E bn)) \<and>
   is_chordal bn (Some []) = is_chordal bn None \<and>
   (E bn = [] \<longrightarrow> is_chordal bn (Some []))"
  by (simp add: is_chordal_def nx_is_chordal_def add_edges_from_def Graph_def)

theorem is_chordal_empty_own_edges_witness:
  "E isolated = [] \<and> is_chordal isolated (Some [])"
proof -
  have h: "E isolated = []" by (simp add: isolated_def)
  from is_chordal_empty_own_edges[of isolated] h show ?thesis by blast
qed

text \<open>
  \<^bold>\<open>C6\<close>. Triangulating the triangulated list changes nothing: for the network with the
  result of \<open>get_chordal_nx\<close> as its edge list, moralization returns that list, the list is
  chordal, and \<open>get_chordal_nx\<close> returns it as it is.
\<close>

theorem triangulation_idempotent:
  assumes "hash_order (dict_iter rt)" and "hash_order (set_iter rt)"
    and "chordal_E rt bn None None = Inr result"
  shows "chordal_E rt' (bn\<lparr>E := result\<rparr>) v' e' = Inr result \<and>
         get_chordal_nx rt' (bn\<lparr>E := result\<rparr>) v' e' = get_chordal_nx rt bn None None"
proof -
  let ?bn = "bn\<lparr>E := result\<rparr>"
  have c: "nx_is_chordal (add_edges_from result Graph)"
    using assms by (rule chordal_E_nx_chordal)
  obtain moral where m: "get_moralized_edge_list bn = Inr moral"
    using assms(3) by (auto simp: chordal_E_def split: sum.splits)
  have m': "get_moralized_edge_list ?bn = Inr result"
    using m grows_chordal_E[OF m assms(3)] by (rule remoralize)
  have "(if result = [] then E ?bn else result) = result" by simp
  then have "is_chordal ?bn (Some result)" using c by (simp only: is_chordal_def option.case Let_def)
  then have "chordal_E rt' ?bn v' e' = Inr result" using m' by (simp add: chordal_E_def)
  then show ?thesis using assms(3) by (simp add: get_chordal_nx_def)
qed

theorem triangulation_idempotent_witness:
  "hash_order (dict_iter insertion_order) \<and> hash_order (set_iter insertion_order) \<and>
   chordal_E insertion_order pentagon None None = Inr (pentagon_moral @ [(''B'', ''C'')]) \<and>
   chordal_E insertion_order (pentagon\<lparr>E := pentagon_moral @ [(''B'', ''C'')]\<rparr>) None None
     = Inr (pentagon_moral @ [(''B'', ''C'')])"
proof -
  have h1: "hash_order (dict_iter insertion_order)"
    by (simp add: insertion_order_def hash_order_remdups)
  have h2: "hash_order (set_iter insertion_order)"
    by (simp add: insertion_order_def hash_order_remdups)
  have h3: "chordal_E insertion_order pentagon None None = Inr (pentagon_moral @ [(''B'', ''C'')])"
    by code_simp
  from triangulation_idempotent[OF h1 h2 h3, of insertion_order None None] h1 h2 h3
  show ?thesis by blast
qed

text \<open>
  \<^bold>\<open>C7\<close> fails as stated. An override \<open>e\<close> with an edge in both orientations is copied into
  the result as it is.
\<close>

theorem override_both_orientations:
  "chordal_E insertion_order pentagon (Some [''A'']) (Some [(''A'', ''B''), (''B'', ''A'')])
     = Inr [(''A'', ''B''), (''B'', ''A'')]"
  by code_simp

text \<open>
  \<^bold>\<open>C7\<close>, amended. Moralization and triangulation append an edge only when its end points
  are not yet joined. So the moral edge list is one-way when the network's edge list is,
  and the triangulated list is one-way when the network's edge list and the override \<open>e\<close>,
  if one is given, are.
\<close>

theorem one_way_kept:
  "(get_moralized_edge_list bn = Inr moral \<and> one_way (E bn) \<longrightarrow> one_way moral) \<and>
   (chordal_E rt bn v e = Inr result \<and> one_way (E bn) \<and> (e = None \<or> one_way (the e))
      \<longrightarrow> one_way result)"
proof (intro conjI impI)
  assume "get_moralized_edge_list bn = Inr moral \<and> one_way (E bn)"
  then have "moralize_nodes (data bn) (V bn) (E bn) = Inr moral" and "one_way (E bn)"
    by (simp_all add: get_moralized_edge_list_def)
  then show "one_way moral"
    using grows_one_way[OF grows_moralize_nodes] by blast
next
  assume a: "chordal_E rt bn v e = Inr result \<and> one_way (E bn) \<and> (e = None \<or> one_way (the e))"
  then obtain moral where m: "get_moralized_edge_list bn = Inr moral"
    by (auto simp: chordal_E_def split: sum.splits)
  have "moralize_nodes (data bn) (V bn) (E bn) = Inr moral" and "one_way (E bn)"
    using m a by (simp_all add: get_moralized_edge_list_def)
  then have ow: "one_way moral"
    using grows_one_way[OF grows_moralize_nodes] by blast
  have g: "one_way start \<Longrightarrow> one_way (fst (fold (eliminate rt) vs (start, start)))" for start vs
    using grows_one_way[OF grows_elimination[of "(start, start)" rt vs]] by simp
  have te: "truthy e \<Longrightarrow> one_way (the e)"
    using a by (auto simp: truthy_def)
  show "one_way result"
    using a m ow g[OF ow] g[OF te] by (auto simp: chordal_E_def split: if_splits)
qed

theorem one_way_kept_witness:
  "get_moralized_edge_list pentagon = Inr pentagon_moral \<and> one_way (E pentagon) \<and>
   one_way pentagon_moral \<and>
   chordal_E insertion_order pentagon None None = Inr (pentagon_moral @ [(''B'', ''C'')]) \<and>
   one_way (pentagon_moral @ [(''B'', ''C'')])"
proof -
  have h1: "get_moralized_edge_list pentagon = Inr pentagon_moral" by code_simp
  have h2: "chordal_E insertion_order pentagon None None = Inr (pentagon_moral @ [(''B'', ''C'')])"
    by code_simp
  have h3: "one_way (E pentagon)"
    unfolding one_way_def pentagon_def by auto
  note t = one_way_kept[of pentagon pentagon_moral insertion_order None None
      "pentagon_moral @ [(''B'', ''C'')]"]
  have "one_way pentagon_moral" using t h1 h3 by blast
  moreover have "one_way (pentagon_moral @ [(''B'', ''C'')])" using t h2 h3 by blast
  ultimately show ?thesis using h1 h2 h3 by blast
qed

text \<open>
  \<^bold>\<open>C8\<close> fails as stated. No entry \<open>'vals'\<close> is read: a network without them is moralized
  and triangulated, and no error is raised.
\<close>

theorem missing_vals_not_reported:
  "get_moralized_edge_list no_vals = Inr [(''A'', ''B'')] \<and>
   chordal_E insertion_order no_vals None None = Inr [(''A'', ''B'')]"
  by code_simp

text \<open>
  \<^bold>\<open>C8\<close>, amended. When a vertex of \<open>V\<close> has no entry in \<open>data\<close>, or an entry without
  \<open>'parents'\<close>, and every vertex before it has a list of parents, then moralization and
  triangulation raise \<open>KeyError\<close> and return nothing.
\<close>

theorem missing_parents_raise_KeyError:
  assumes "V bn = before @ node # rest"
    and "\<forall>n\<in>set before. parent_list bn n \<noteq> None"
    and "data bn node = None \<or> (\<exists>nd. data bn node = Some nd \<and> parents nd = None)"
  shows "get_moralized_edge_list bn = Inl KeyError \<and>
         chordal_E rt bn v e = Inl KeyError \<and>
         get_chordal_nx rt bn v e = Inl KeyError"
proof -
  obtain m where m: "moralize_nodes (data bn) before (E bn) = Inr m"
    using moralize_nodes_ok[of bn before "E bn"] assms(2) by blast
  have "moralize_nodes (data bn) (node # rest) m = Inl KeyError"
    using assms(3) by auto
  then have "get_moralized_edge_list bn = Inl KeyError"
    unfolding get_moralized_edge_list_def assms(1) moralize_nodes_append m by simp
  then show ?thesis using chordal_E_fails by blast
qed

theorem missing_parents_raise_KeyError_witness:
  "V no_parents = [''A''] @ ''B'' # [] \<and>
   parent_list no_parents ''A'' \<noteq> None \<and>
   (data no_parents ''B'' = None \<or> (\<exists>nd. data no_parents ''B'' = Some nd \<and> parents nd = None)) \<and>
   get_moralized_edge_list no_parents = Inl KeyError \<and>
   get_chordal_nx insertion_order no_parents None None = Inl KeyError"
proof -
  have h1: "V no_parents = [''A''] @ ''B'' # []" by (simp add: no_parents_def)
  have h2: "\<forall>n\<in>set [''A'']. parent_list no_parents n \<noteq> None"
    by (simp add: no_parents_def parent_list_def)
  have h3: "data no_parents ''B'' = None \<or> (\<exists>nd. data no_parents ''B'' = Some nd \<and> parents nd = None)"
    by (simp add: no_parents_def)
  have h2': "parent_list no_parents ''A'' \<noteq> None" using h2 by simp
  from missing_parents_raise_KeyError[OF h1 h2 h3, of insertion_order None None] h1 h2' h3
  show ?thesis by blast
qed

text \<open>
  \<^bold>\<open>C9\<close> fails as stated. Overrides that name the vertices \<open>X\<close> and \<open>Y\<close>, which the network
  does not have, are taken as they are, and the call returns their edge.
\<close>

theorem foreign_override_accepted:
  "chordal_E insertion_order pentagon (Some [''X'']) (Some [(''X'', ''Y'')]) = Inr [(''X'', ''Y'')]"
  by code_simp

text \<open>
  \<^bold>\<open>C9\<close>, amended. The overrides are not checked against the network. When both are given
  and the moral graph is not chordal, what \<open>get_chordal_nx\<close> returns is the elimination that
  starts from \<open>e\<close> and runs over \<open>v\<close>, as given, whatever vertices they name.
\<close>

theorem overrides_taken_as_given:
  assumes "get_moralized_edge_list bn = Inr moral"
    and "\<not> is_chordal bn (Some moral)"
    and "truthy v" and "truthy e"
    and "chordal_E rt bn v e = Inr es"
  shows "es = fst (fold (eliminate rt) (the v) (the e, the e))"
  using assms by (simp add: chordal_E_def)

theorem overrides_taken_as_given_witness:
  "get_moralized_edge_list pentagon = Inr pentagon_moral \<and>
   \<not> is_chordal pentagon (Some pentagon_moral) \<and>
   truthy (Some [''X'']) \<and> truthy (Some [(''X'', ''Y'')]) \<and>
   chordal_E insertion_order pentagon (Some [''X'']) (Some [(''X'', ''Y'')]) = Inr [(''X'', ''Y'')] \<and>
   [(''X'', ''Y'')] = fst (fold (eliminate insertion_order) [''X''] ([(''X'', ''Y'')], [(''X'', ''Y'')]))"
proof -
  have h1: "get_moralized_edge_list pentagon = Inr pentagon_moral" by code_simp
  have h2: "\<not> is_chordal pentagon (Some pentagon_moral)" by code_simp
  have h3: "truthy (Some [''X''])" by (simp add: truthy_def)
  have h4: "truthy (Some [(''X'', ''Y'')])" by (simp add: truthy_def)
  have h5: "chordal_E insertion_order pentagon (Some [''X'']) (Some [(''X'', ''Y'')])
      = Inr [(''X'', ''Y'')]" by code_simp
  from overrides_taken_as_given[OF h1 h2 h3 h4 h5] h1 h2 h3 h4 h5 show ?thesis by simp
qed

text \<open>
  \<^bold>\<open>C10\<close>. When \<open>v\<close> or \<open>e\<close> is \<open>None\<close> or the empty list, and the moral graph is not chordal,
  both overrides are ignored: the result is that of the call without overrides, the
  elimination from the moral edges over the vertices of the moral graph, each once, in
  ascending degree.
\<close>

theorem overrides_need_both:
  assumes "v = None \<or> v = Some [] \<or> e = None \<or> e = Some []"
    and "get_moralized_edge_list bn = Inr moral"
    and "\<not> is_chordal bn (Some moral)"
    and "hash_order (dict_iter rt)"
  shows "\<exists>temp_V.
           chordal_E rt bn v e = Inr (fst (fold (eliminate rt) temp_V (moral, moral))) \<and>
           set temp_V = ends moral \<and> distinct temp_V \<and>
           sorted (map (degree (add_edges_from moral Graph)) temp_V) \<and>
           get_chordal_nx rt bn v e = get_chordal_nx rt bn None None"
proof -
  let ?G = "add_edges_from moral Graph"
  have nt: "\<not> (truthy v \<and> truthy e)"
    using assms(1) by (auto simp: truthy_def)
  have nn: "\<not> (truthy (None :: vertex list option) \<and> truthy (None :: edge list option))"
    by (simp add: truthy_def)
  have "chordal_E rt bn v e = Inr (fst (fold (eliminate rt) (degree_order rt ?G) (moral, moral)))"
    using assms(2,3) nt by (auto simp: chordal_E_def)
  moreover have "chordal_E rt bn None None = chordal_E rt bn v e"
    using assms(2,3) nt nn by (auto simp: chordal_E_def)
  moreover have "set (degree_order rt ?G) = ends moral"
    using degree_order_props(1)[OF assms(4)] by (simp add: nodes_graph_of)
  ultimately show ?thesis
    using degree_order_props(2,3)[OF assms(4), of ?G]
    by (intro exI[of _ "degree_order rt ?G"]) (simp add: get_chordal_nx_def)
qed

theorem overrides_need_both_witness:
  "get_moralized_edge_list pentagon = Inr pentagon_moral \<and>
   \<not> is_chordal pentagon (Some pentagon_moral) \<and>
   hash_order (dict_iter insertion_order) \<and>
   get_chordal_nx insertion_order pentagon (Some []) (Some [(''X'', ''Y'')])
     = get_chordal_nx insertion_order pentagon None None"
proof -
  have h1: "Some [] = None \<or> Some [] = Some [] \<or> Some [(''X'', ''Y'')] = None
      \<or> Some [(''X'', ''Y'')] = Some ([] :: edge list)" by simp
  have h2: "get_moralized_edge_list pentagon = Inr pentagon_moral" by code_simp
  have h3: "\<not> is_chordal pentagon (Some pentagon_moral)" by code_simp
  have h4: "hash_order (dict_iter insertion_order)"
    by (simp add: insertion_order_def hash_order_remdups)
  from overrides_need_both[OF h1 h2 h3 h4] h2 h3 h4 show ?thesis by blast
qed

end
